theory Spec2Isabelle
  imports Complex_Main "HOL-Library.Log_Nat"
begin

section \<open>Transcript accumulator (App.tsx, handleTranscript)\<close>

text \<open>
  A transcript turn as the UI holds it. The source's field names \<open>id\<close>, \<open>role\<close> and
  \<open>text\<close> are prefixed with \<open>item_\<close>: \<open>id\<close> is a HOL constant and \<open>text\<close> is a
  keyword of the theory language.
\<close>

datatype Role = User | Model

record TranscriptionItem =
  item_id :: string
  item_role :: Role
  item_text :: string
  isComplete :: bool

text \<open>\<open>Date.now().toString()\<close>: the decimal rendering of the millisecond clock.\<close>

definition digit_char :: "nat \<Rightarrow> char" where
  "digit_char d = char_of (48 + d)"

fun toString :: "nat \<Rightarrow> string" where
  "toString n = (if n < 10 then [digit_char n] else toString (n div 10) @ [digit_char (n mod 10)])"

declare toString.simps [simp del]

text \<open>
  The state updater passed to \<open>setTranscripts\<close>. \<open>prev[prev.length - 1]\<close> is
  \<open>undefined\<close> on the empty list, which fails the \<open>lastItem &&\<close> test; the model
  makes this the \<open>None\<close> branch. The first argument is the reading of \<open>Date.now()\<close>.
\<close>

definition lastItem_of :: "TranscriptionItem list \<Rightarrow> TranscriptionItem option" where
  "lastItem_of prev = (if prev = [] then None else Some (prev ! (length prev - 1)))"

definition handleTranscript ::
  "nat \<Rightarrow> string \<Rightarrow> Role \<Rightarrow> bool \<Rightarrow> TranscriptionItem list \<Rightarrow> TranscriptionItem list" where
  "handleTranscript now txt r isFinal prev =
     (let newItem = \<lparr>item_id = toString now, item_role = r, item_text = txt, isComplete = isFinal\<rparr>
      in case lastItem_of prev of
           None \<Rightarrow> prev @ [newItem]
         | Some lastItem \<Rightarrow>
             if item_role lastItem = r \<and> \<not> isComplete lastItem
             then prev[length prev - 1 := lastItem\<lparr>item_text := txt, isComplete := isFinal\<rparr>]
             else prev @ [newItem])"

text \<open>A fragment as the callback receives it, with the clock reading taken when it is handled.\<close>

type_synonym fragment = "nat \<times> string \<times> Role \<times> bool"

fun deliver :: "fragment list \<Rightarrow> TranscriptionItem list \<Rightarrow> TranscriptionItem list" where
  "deliver [] prev = prev"
| "deliver ((now, txt, r, isFinal) # fs) prev = deliver fs (handleTranscript now txt r isFinal prev)"

section \<open>Base64 transport encoding (the platform's btoa and atob)\<close>

text \<open>
  A JavaScript binary string is a string of code units below 256, which is what a HOL
  \<open>string\<close> is. \<open>btoa\<close> encodes three bytes as four characters of the alphabet and
  pads with \<open>=\<close>; \<open>atob\<close> is the forgiving decoder of the HTML standard: it removes
  ASCII whitespace, removes one or two trailing \<open>=\<close> when the length is a multiple of
  four, rejects a length of 1 modulo 4 and any character outside the alphabet, and
  discards the unused low bits of a final group of two or three characters.
\<close>

definition b64_alphabet :: string where
  "b64_alphabet = ''ABCDEFGHIJKLMNOPQRSTUVWXYZabcdefghijklmnopqrstuvwxyz0123456789+/''"

definition b64_char :: "nat \<Rightarrow> char" where
  "b64_char n = b64_alphabet ! n"

fun index_of :: "'a \<Rightarrow> 'a list \<Rightarrow> nat option" where
  "index_of x [] = None"
| "index_of x (y # ys) = (if x = y then Some 0 else map_option Suc (index_of x ys))"

definition b64_value :: "char \<Rightarrow> nat option" where
  "b64_value c = index_of c b64_alphabet"

fun btoa_body :: "nat list \<Rightarrow> string" where
  "btoa_body (a # b # c # rest) =
     [b64_char (a div 4), b64_char ((a mod 4) * 16 + b div 16),
      b64_char ((b mod 16) * 4 + c div 64), b64_char (c mod 64)] @ btoa_body rest"
| "btoa_body [a, b] =
     [b64_char (a div 4), b64_char ((a mod 4) * 16 + b div 16), b64_char ((b mod 16) * 4)]"
| "btoa_body [a] = [b64_char (a div 4), b64_char ((a mod 4) * 16)]"
| "btoa_body [] = []"

definition btoa :: "string \<Rightarrow> string" where
  "btoa s = btoa_body (map of_char s) @ replicate ((3 - length s mod 3) mod 3) (CHR ''='')"

definition ascii_whitespace :: "char \<Rightarrow> bool" where
  "ascii_whitespace c = (of_char c \<in> {9, 10, 12, 13, 32 :: nat})"

definition strip_padding :: "string \<Rightarrow> string" where
  "strip_padding s =
     (if length s mod 4 = 0 \<and> s \<noteq> [] \<and> last s = CHR ''=''
      then (if butlast s \<noteq> [] \<and> last (butlast s) = CHR ''='' then butlast (butlast s)
            else butlast s)
      else s)"

fun atob_groups :: "nat list \<Rightarrow> nat list" where
  "atob_groups (a # b # c # d # rest) =
     [a * 4 + b div 16, (b mod 16) * 16 + c div 4, (c mod 4) * 64 + d] @ atob_groups rest"
| "atob_groups [a, b, c] = [a * 4 + b div 16, (b mod 16) * 16 + c div 4]"
| "atob_groups [a, b] = [a * 4 + b div 16]"
| "atob_groups [a] = []"
| "atob_groups [] = []"

definition atob :: "string \<Rightarrow> string option" where
  "atob s =
     (let d = strip_padding (filter (\<lambda>c. \<not> ascii_whitespace c) s)
      in if length d mod 4 = 1 then None
         else case those (map b64_value d) of
                None \<Rightarrow> None
              | Some vs \<Rightarrow> Some (map char_of (atob_groups vs)))"

text \<open>The six-bit groups that \<open>btoa\<close> writes, before they are mapped to characters.\<close>

fun sextets :: "nat list \<Rightarrow> nat list" where
  "sextets (a # b # c # rest) =
     [a div 4, (a mod 4) * 16 + b div 16, (b mod 16) * 4 + c div 64, c mod 64] @ sextets rest"
| "sextets [a, b] = [a div 4, (a mod 4) * 16 + b div 16, (b mod 16) * 4]"
| "sextets [a] = [a div 4, (a mod 4) * 16]"
| "sextets [] = []"

section \<open>PCM codec (types.ts)\<close>

text \<open>
  A finite JavaScript number is kept as the rational it denotes. The codec's arithmetic
  on a sample of a \<open>Float32Array\<close> is exact in double precision (a 24-bit significand
  times a 15- or 16-bit constant, and a 16-bit integer divided by a power of two), so
  it is written without roundings and computes the values the code computes; the
  resampler's arithmetic is not exact, and is written with its roundings (below).
  A \<open>Uint8Array\<close> is a list of naturals below 256 and an \<open>Int16Array\<close> a list of
  integers from -32768 to 32767, stored little-endian in two's complement.
\<close>

datatype Error = InvalidCharacterError | RangeError | NotSupportedError

definition base64ToUint8Array :: "string \<Rightarrow> Error + nat list" where
  "base64ToUint8Array base64 =
     (case atob base64 of
        None \<Rightarrow> Inl InvalidCharacterError
      | Some binaryString \<Rightarrow> Inr (map of_char binaryString))"

definition arrayBufferToBase64 :: "nat list \<Rightarrow> string" where
  "arrayBufferToBase64 bytes = btoa (map char_of bytes)"

text \<open>
  Storing a number into an \<open>Int16Array\<close> truncates it towards zero and wraps it
  modulo \<open>2 ^ 16\<close> into the signed range.
\<close>

definition toInt16 :: "rat \<Rightarrow> int" where
  "toInt16 x = (let n = (if 0 \<le> x then \<lfloor>x\<rfloor> else \<lceil>x\<rceil>) in (n + 32768) mod 65536 - 32768)"

definition int16_bytes :: "int \<Rightarrow> nat list" where
  "int16_bytes v = (let u = nat (v mod 65536) in [u mod 256, u div 256])"

definition int16_buffer :: "int list \<Rightarrow> nat list" where
  "int16_buffer vs = concat (map int16_bytes vs)"

definition int16_le :: "nat \<Rightarrow> nat \<Rightarrow> int" where
  "int16_le lo hi = (let u = int lo + 256 * int hi in if 32768 \<le> u then u - 65536 else u)"

fun int16_pairs :: "nat list \<Rightarrow> int list" where
  "int16_pairs (lo # hi # rest) = int16_le lo hi # int16_pairs rest"
| "int16_pairs [lo] = []"
| "int16_pairs [] = []"

text \<open>\<open>new Int16Array(buffer)\<close> throws a RangeError when the byte length is odd.\<close>

definition Int16Array :: "nat list \<Rightarrow> Error + int list" where
  "Int16Array bytes = (if odd (length bytes) then Inl RangeError else Inr (int16_pairs bytes))"

record Blob =
  data :: string
  mimeType :: string

definition pcm_sample :: "rat \<Rightarrow> int" where
  "pcm_sample x = (let s = max (- 1) (min 1 x) in toInt16 (if s < 0 then s * 32768 else s * 32767))"

definition createPcmBlob :: "rat list \<Rightarrow> Blob" where
  "createPcmBlob samples =
     \<lparr>data = arrayBufferToBase64 (int16_buffer (map pcm_sample samples)),
      mimeType = ''audio/pcm;rate=16000''\<rparr>"

record AudioBuffer =
  sampleRate :: rat
  frames :: nat
  channelData :: "rat list list"

definition duration :: "AudioBuffer \<Rightarrow> rat" where
  "duration b = of_nat (frames b) / sampleRate b"

text \<open>
  \<open>ctx.createBuffer\<close> of the Web Audio interface throws a NotSupportedError unless
  there is at least one channel, at least one frame and a positive rate (its upper
  limits depend on the browser and are not modelled). A fractional frame count is
  truncated by the interface, and a write past the end of a channel is ignored, so the
  buffer holds \<open>length div numChannels\<close> frames.
\<close>

definition createBuffer :: "nat \<Rightarrow> nat \<Rightarrow> rat \<Rightarrow> Error + AudioBuffer" where
  "createBuffer numChannels len rate =
     (if numChannels = 0 \<or> len = 0 \<or> rate \<le> 0 then Inl NotSupportedError
      else Inr \<lparr>sampleRate = rate, frames = len,
                channelData = replicate numChannels (replicate len 0)\<rparr>)"

definition decodeAudioData :: "nat list \<Rightarrow> rat \<Rightarrow> nat \<Rightarrow> Error + AudioBuffer" where
  "decodeAudioData bytes rate numChannels =
     (case Int16Array bytes of
        Inl e \<Rightarrow> Inl e
      | Inr dataInt16 \<Rightarrow>
          (case createBuffer numChannels (length dataInt16 div numChannels) rate of
             Inl e \<Rightarrow> Inl e
           | Inr buffer \<Rightarrow>
               Inr (buffer\<lparr>channelData :=
                      map (\<lambda>channel.
                             map (\<lambda>i. of_int (dataInt16 ! (i * numChannels + channel)) / 32768)
                               [0..<frames buffer])
                        [0..<numChannels]\<rparr>)))"

section \<open>IEEE 754 rounding (the numbers of the platform)\<close>

text \<open>
  A JavaScript number is an IEEE 754 double and an element of a \<open>Float32Array\<close> a
  single. A finite number is kept as the rational it denotes, and every operation gives
  the exact result rounded to its format, to the nearest value of the format and on a
  tie to the one with an even significand. \<open>expo x\<close> is the exponent \<open>e\<close> with
  \<open>2 ^ e \<le> x < 2 ^ (e + 1)\<close>, read from the bit lengths of numerator and denominator;
  \<open>scale p emin x\<close> is the distance between neighbouring values of the format near \<open>x\<close>,
  for \<open>p\<close> significant bits and the least normal exponent \<open>emin\<close> (below \<open>2 ^ emin\<close> the
  subnormal values keep the distance of the least normal ones); \<open>rnd\<close> rounds the
  magnitude to a multiple of that distance. The largest value of a format is left
  out: on finite samples the resampler exceeds it only in the quotient that gives the
  new length, for a ratio next to zero, and a length that large is refused by the
  allocation either way. NaN and the infinities are not numbers of the model.
\<close>

definition expo :: "rat \<Rightarrow> int" where
  "expo x = (let (p, q) = quotient_of x; k = bitlen p - bitlen q
             in if 2 powi k \<le> x then k else k - 1)"

definition round_even :: "rat \<Rightarrow> int" where
  "round_even y = (let f = \<lfloor>y\<rfloor>; d = y - of_int f
                   in if d < 1 / 2 then f else if 1 / 2 < d then f + 1
                      else if even f then f else f + 1)"

definition scale :: "nat \<Rightarrow> int \<Rightarrow> rat \<Rightarrow> rat" where
  "scale p emin x = 2 powi (max (expo x) emin - int p + 1)"

definition rnd :: "nat \<Rightarrow> int \<Rightarrow> rat \<Rightarrow> rat" where
  "rnd p emin x =
     (if x = 0 then 0
      else sgn x * of_int (round_even (\<bar>x\<bar> / scale p emin \<bar>x\<bar>)) * scale p emin \<bar>x\<bar>)"

definition f64 :: "rat \<Rightarrow> rat" where
  "f64 = rnd 53 (- 1022)"

definition f32 :: "rat \<Rightarrow> rat" where
  "f32 = rnd 24 (- 126)"

section \<open>Resampler (types.ts, downsampleTo16k)\<close>

text \<open>
  Every arithmetic operation of the source is a double operation, written here as
  \<open>f64\<close> of the exact result: the quotient \<open>inputSampleRate / 16000\<close>, the quotient
  \<open>buffer.length / ratio\<close>, the product \<open>i * ratio\<close>, the difference
  \<open>index - indexFloor\<close>, and the difference, the product and the sum of the
  interpolation; the store into the \<open>Float32Array\<close> rounds the sum once more, to a
  single (\<open>f32\<close>). The samples of the input are elements of a \<open>Float32Array\<close>, and a
  length or an index is an integer below \<open>2 ^ 53\<close>, a double as it is.

  \<open>Math.round\<close> rounds to the nearest integer, a tie towards plus infinity. A read of
  a typed array outside its bounds gives \<open>undefined\<close>, and the arithmetic on it NaN:
  the model reads an \<open>option\<close> and a sample computed from a missing read is \<open>None\<close>.
  \<open>new Float32Array\<close> throws a RangeError for a negative length and for a length above
  the limit of the engine, \<open>maxLength\<close> (a property of the platform, not of the
  source: the model takes it as a parameter), and so it does for the infinite length
  that the division by a zero ratio gives for a buffer that is not empty (for the
  empty buffer that division gives NaN, and an array of length 0).
\<close>

definition Math_round :: "rat \<Rightarrow> int" where
  "Math_round x = \<lfloor>x + 1 / 2\<rfloor>"

definition readSample :: "rat list \<Rightarrow> int \<Rightarrow> rat option" where
  "readSample buffer k = (if 0 \<le> k \<and> k < int (length buffer) then Some (buffer ! nat k) else None)"

definition indexFloor :: "rat \<Rightarrow> nat \<Rightarrow> int" where
  "indexFloor ratio i = \<lfloor>f64 (of_nat i * ratio)\<rfloor>"

definition indexCeil :: "rat list \<Rightarrow> rat \<Rightarrow> nat \<Rightarrow> int" where
  "indexCeil buffer ratio i = min \<lceil>f64 (of_nat i * ratio)\<rceil> (int (length buffer) - 1)"

definition resampleAt :: "rat list \<Rightarrow> rat \<Rightarrow> nat \<Rightarrow> rat option" where
  "resampleAt buffer ratio i =
     (let index = f64 (of_nat i * ratio);
          decimal = f64 (index - of_int (indexFloor ratio i))
      in case (readSample buffer (indexFloor ratio i), readSample buffer (indexCeil buffer ratio i)) of
           (Some val1, Some val2) \<Rightarrow> Some (f32 (f64 (val1 + f64 (f64 (val2 - val1) * decimal))))
         | _ \<Rightarrow> None)"

definition downsampleTo16k :: "int \<Rightarrow> rat list \<Rightarrow> rat \<Rightarrow> Error + rat option list" where
  "downsampleTo16k maxLength buffer inputSampleRate =
     (if inputSampleRate = 16000 then Inr (map Some buffer)
      else
        let ratio = f64 (inputSampleRate / 16000)
        in if ratio = 0 then (if buffer = [] then Inr [] else Inl RangeError)
           else
             let newLength = Math_round (f64 (of_nat (length buffer) / ratio))
             in if newLength < 0 \<or> maxLength < newLength then Inl RangeError
                else Inr (map (resampleAt buffer ratio) [0..<nat newLength]))"

text \<open>
  The values of the two constants \<open>ratio\<close> and \<open>newLength\<close> of the source, for the
  statements about them.
\<close>

definition ratioOf :: "rat \<Rightarrow> rat" where
  "ratioOf inputSampleRate = f64 (inputSampleRate / 16000)"

definition newLengthOf :: "rat list \<Rightarrow> rat \<Rightarrow> int" where
  "newLengthOf buffer inputSampleRate =
     Math_round (f64 (of_nat (length buffer) / ratioOf inputSampleRate))"

text \<open>
  The buffer of the microphone callback (4096 frames, the size the source asks of
  \<open>createScriptProcessor\<close>), silent.
\<close>

definition silence :: "rat list" where
  "silence = replicate 4096 0"

text \<open>
  The same buffer with the one sample \<open>buffer[944]\<close> set to 1.
\<close>

definition impulse :: "rat list" where
  "impulse = replicate 944 0 @ [1] @ replicate 3151 0"

section \<open>Session controller: inbound messages (geminiLiveService.ts, handleMessage)\<close>

datatype Part = Part (inlineData: "string option")

record ServerContent =
  inputTranscription :: "string option"
  outputTranscription :: "string option"
  turnComplete :: bool
  interrupted :: bool
  modelTurn :: "Part list option"

record LiveServerMessage =
  serverContent :: "ServerContent option"

text \<open>
  The fields of the service that \<open>handleMessage\<close> reads and writes. The two device
  handles are modelled by whether they are non-null. The output clock is read twice,
  once when a chunk is scheduled and once when an interruption is handled; the two
  readings are inputs of the handler.
\<close>

record GeminiLiveService =
  outputAudioContext :: bool
  outputNode :: bool
  nextStartTime :: rat
  currentInputTranscription :: string
  currentOutputTranscription :: string

record OutputClock =
  timeAtSchedule :: rat
  timeAtInterrupt :: rat

datatype Effect =
    OnTranscript string Role bool
  | SourceStart AudioBuffer rat
  | ConsoleError Error

text \<open>Optional chaining: \<open>message.serverContent?.field\<close>.\<close>

definition content :: "(ServerContent \<Rightarrow> 'a option) \<Rightarrow> LiveServerMessage \<Rightarrow> 'a option" where
  "content field message = (case serverContent message of None \<Rightarrow> None | Some sc \<Rightarrow> field sc)"

definition flag :: "(ServerContent \<Rightarrow> bool) \<Rightarrow> LiveServerMessage \<Rightarrow> bool" where
  "flag field message = (case serverContent message of None \<Rightarrow> False | Some sc \<Rightarrow> field sc)"

text \<open>\<open>message.serverContent?.modelTurn?.parts?.[0]?.inlineData?.data\<close>\<close>

definition base64Audio :: "LiveServerMessage \<Rightarrow> string option" where
  "base64Audio message =
     (case content modelTurn message of
        None \<Rightarrow> None
      | Some [] \<Rightarrow> None
      | Some (p # _) \<Rightarrow> inlineData p)"

definition handleTranscriptions ::
  "LiveServerMessage \<Rightarrow> GeminiLiveService \<Rightarrow> GeminiLiveService \<times> Effect list" where
  "handleTranscriptions message s =
     (case content outputTranscription message of
        Some txt \<Rightarrow>
          (let acc = currentOutputTranscription s @ txt
           in (s\<lparr>currentOutputTranscription := acc\<rparr>, [OnTranscript acc Model False]))
      | None \<Rightarrow>
          (case content inputTranscription message of
             Some txt \<Rightarrow>
               (let acc = currentInputTranscription s @ txt
                in (s\<lparr>currentInputTranscription := acc\<rparr>, [OnTranscript acc User False]))
           | None \<Rightarrow> (s, [])))"

definition flushInput :: "GeminiLiveService \<Rightarrow> GeminiLiveService \<times> Effect list" where
  "flushInput s =
     (if currentInputTranscription s \<noteq> []
      then (s\<lparr>currentInputTranscription := []\<rparr>,
            [OnTranscript (currentInputTranscription s) User True])
      else (s, []))"

definition flushOutput :: "GeminiLiveService \<Rightarrow> GeminiLiveService \<times> Effect list" where
  "flushOutput s =
     (if currentOutputTranscription s \<noteq> []
      then (s\<lparr>currentOutputTranscription := []\<rparr>,
            [OnTranscript (currentOutputTranscription s) Model True])
      else (s, []))"

definition handleTurnComplete ::
  "LiveServerMessage \<Rightarrow> GeminiLiveService \<Rightarrow> GeminiLiveService \<times> Effect list" where
  "handleTurnComplete message s =
     (if flag turnComplete message
      then (let (s1, e1) = flushInput s; (s2, e2) = flushOutput s1 in (s2, e1 @ e2))
      else (s, []))"

text \<open>The body of the \<open>try\<close> block up to the point where the decoded buffer exists.\<close>

definition decodeChunk :: "string \<Rightarrow> Error + AudioBuffer" where
  "decodeChunk b64 =
     (case base64ToUint8Array b64 of
        Inl e \<Rightarrow> Inl e
      | Inr bytes \<Rightarrow> decodeAudioData bytes 24000 1)"

text \<open>Encoding a buffer for the wire and decoding the payload as an inbound chunk is decoded.\<close>

definition roundTrip :: "rat list \<Rightarrow> Error + AudioBuffer" where
  "roundTrip samples = decodeChunk (data (createPcmBlob samples))"

definition handleAudio ::
  "OutputClock \<Rightarrow> LiveServerMessage \<Rightarrow> GeminiLiveService \<Rightarrow> GeminiLiveService \<times> Effect list" where
  "handleAudio clock message s =
     (case base64Audio message of
        None \<Rightarrow> (s, [])
      | Some b64 \<Rightarrow>
          if b64 \<noteq> [] \<and> outputAudioContext s \<and> outputNode s
          then (case decodeChunk b64 of
                  Inl err \<Rightarrow> (s, [ConsoleError err])
                | Inr audioBuffer \<Rightarrow>
                    (let currentTime = timeAtSchedule clock;
                         start = (if nextStartTime s < currentTime then currentTime
                                  else nextStartTime s)
                     in (s\<lparr>nextStartTime := start + duration audioBuffer\<rparr>,
                         [SourceStart audioBuffer start])))
          else (s, []))"

definition handleInterruption ::
  "OutputClock \<Rightarrow> LiveServerMessage \<Rightarrow> GeminiLiveService \<Rightarrow> GeminiLiveService" where
  "handleInterruption clock message s =
     (if flag interrupted message
      then s\<lparr>nextStartTime := (if outputAudioContext s then timeAtInterrupt clock else 0),
             currentOutputTranscription := []\<rparr>
      else s)"

definition handleMessage ::
  "OutputClock \<Rightarrow> LiveServerMessage \<Rightarrow> GeminiLiveService \<Rightarrow> GeminiLiveService \<times> Effect list" where
  "handleMessage clock message s =
     (let (s1, e1) = handleTranscriptions message s;
          (s2, e2) = handleTurnComplete message s1;
          (s3, e3) = handleAudio clock message s2
      in (handleInterruption clock message s3, e1 @ e2 @ e3))"

text \<open>A session: the messages in arrival order, each with the clock readings it sees.\<close>

fun run :: "(OutputClock \<times> LiveServerMessage) list \<Rightarrow> GeminiLiveService
            \<Rightarrow> GeminiLiveService \<times> Effect list" where
  "run [] s = (s, [])"
| "run ((clock, message) # rest) s =
     (let (s1, e1) = handleMessage clock message s; (s2, e2) = run rest s1 in (s2, e1 @ e2))"

declare run.simps [simp del]

text \<open>What a run of the handler shows to its environment: the sources started, with
  their start times, and the transcript callbacks made.\<close>

fun scheduled :: "Effect list \<Rightarrow> (AudioBuffer \<times> rat) list" where
  "scheduled [] = []"
| "scheduled (SourceStart b t # es) = (b, t) # scheduled es"
| "scheduled (e # es) = scheduled es"

fun callbacks :: "Effect list \<Rightarrow> (string \<times> Role \<times> bool) list" where
  "callbacks [] = []"
| "callbacks (OnTranscript t r f # es) = (t, r, f) # callbacks es"
| "callbacks (e # es) = callbacks es"

text \<open>The same message without its audio part, and without its interruption flag.\<close>

definition withoutAudio :: "LiveServerMessage \<Rightarrow> LiveServerMessage" where
  "withoutAudio m =
     m\<lparr>serverContent := map_option (\<lambda>sc. sc\<lparr>modelTurn := None\<rparr>) (serverContent m)\<rparr>"

definition withoutInterrupted :: "LiveServerMessage \<Rightarrow> LiveServerMessage" where
  "withoutInterrupted m =
     m\<lparr>serverContent := map_option (\<lambda>sc. sc\<lparr>interrupted := False\<rparr>) (serverContent m)\<rparr>"

subsection \<open>Sample inputs\<close>

definition connected :: GeminiLiveService where
  "connected = \<lparr>outputAudioContext = True, outputNode = True, nextStartTime = 0,
     currentInputTranscription = [], currentOutputTranscription = []\<rparr>"

definition speaking :: GeminiLiveService where
  "speaking = \<lparr>outputAudioContext = True, outputNode = True, nextStartTime = 9,
     currentInputTranscription = ''Hi'', currentOutputTranscription = ''Hel''\<rparr>"

definition clockAt5 :: OutputClock where
  "clockAt5 = \<lparr>timeAtSchedule = 5, timeAtInterrupt = 5\<rparr>"

definition noContent :: ServerContent where
  "noContent = \<lparr>inputTranscription = None, outputTranscription = None,
     turnComplete = False, interrupted = False, modelTurn = None\<rparr>"

definition chunkMessage :: "string \<Rightarrow> LiveServerMessage" where
  "chunkMessage b64 = \<lparr>serverContent = Some (noContent\<lparr>modelTurn := Some [Part (Some b64)]\<rparr>)\<rparr>"

definition bothFragments :: LiveServerMessage where
  "bothFragments = \<lparr>serverContent =
     Some (noContent\<lparr>inputTranscription := Some ''hi'', outputTranscription := Some ''yo''\<rparr>)\<rparr>"

definition interruption :: LiveServerMessage where
  "interruption = \<lparr>serverContent = Some (noContent\<lparr>interrupted := True\<rparr>)\<rparr>"

definition userFragment :: LiveServerMessage where
  "userFragment = \<lparr>serverContent = Some (noContent\<lparr>inputTranscription := Some ''hi''\<rparr>)\<rparr>"

text \<open>The UI after the callbacks of a handler run, all taken at one reading of the clock.\<close>

definition render :: "nat \<Rightarrow> Effect list \<Rightarrow> TranscriptionItem list \<Rightarrow> TranscriptionItem list" where
  "render now effects ui = deliver (map (\<lambda>(t, r, f). (now, t, r, f)) (callbacks effects)) ui"

section \<open>Properties of the transcript accumulator\<close>

lemma handleTranscript_cases:
  "handleTranscript now str r isFinal prev =
     (if prev \<noteq> [] \<and> item_role (last prev) = r \<and> \<not> isComplete (last prev)
      then butlast prev @ [(last prev)\<lparr>item_text := str, isComplete := isFinal\<rparr>]
      else prev @ [\<lparr>item_id = toString now, item_role = r, item_text = str,
                    isComplete = isFinal\<rparr>])"
proof (cases prev rule: rev_cases)
  case Nil
  then show ?thesis by (simp add: handleTranscript_def lastItem_of_def)
next
  case (snoc ys y)
  then show ?thesis by (simp add: handleTranscript_def lastItem_of_def nth_append Let_def)
qed

text \<open>
  Claim C5. From the empty list, the fragments ("Hi", user, not final), ("Hi there",
  user, not final), ("Hi there", user, final), ("Hello", model, not final) leave exactly
  two turns: the complete user turn "Hi there", which keeps the id it got from the first
  fragment, and the incomplete model turn "Hello". In general a fragment whose role is
  that of an incomplete last turn replaces the text and the completeness of that turn in
  place (the earlier turns, the id and the role stay), and any other fragment appends a
  new turn.
\<close>

theorem transcript_coalescing:
  "deliver [(t1, ''Hi'', User, False), (t2, ''Hi there'', User, False),
            (t3, ''Hi there'', User, True), (t4, ''Hello'', Model, False)] []
     = [\<lparr>item_id = toString t1, item_role = User, item_text = ''Hi there'', isComplete = True\<rparr>,
        \<lparr>item_id = toString t4, item_role = Model, item_text = ''Hello'', isComplete = False\<rparr>]
   \<and> handleTranscript now str r isFinal prev =
     (if prev \<noteq> [] \<and> item_role (last prev) = r \<and> \<not> isComplete (last prev)
      then butlast prev @ [(last prev)\<lparr>item_text := str, isComplete := isFinal\<rparr>]
      else prev @ [\<lparr>item_id = toString now, item_role = r, item_text = str,
                    isComplete = isFinal\<rparr>])"
proof -
  have "deliver [(t1, ''Hi'', User, False), (t2, ''Hi there'', User, False),
            (t3, ''Hi there'', User, True), (t4, ''Hello'', Model, False)] []
     = [\<lparr>item_id = toString t1, item_role = User, item_text = ''Hi there'', isComplete = True\<rparr>,
        \<lparr>item_id = toString t4, item_role = Model, item_text = ''Hello'', isComplete = False\<rparr>]"
    by (simp add: handleTranscript_def lastItem_of_def)
  then show ?thesis
    using handleTranscript_cases [of now str r isFinal prev] by simp
qed

theorem transcript_coalescing_witness:
  "deliver [(1, ''Hi'', User, False), (2, ''Hi there'', User, False),
            (3, ''Hi there'', User, True), (4, ''Hello'', Model, False)] []
     = [\<lparr>item_id = ''1'', item_role = User, item_text = ''Hi there'', isComplete = True\<rparr>,
        \<lparr>item_id = ''4'', item_role = Model, item_text = ''Hello'', isComplete = False\<rparr>]"
proof -
  have ids: "toString 1 = ''1''" "toString 4 = ''4''"
    by code_simp+
  show ?thesis
    using transcript_coalescing [of 1 2 3 4 0 "[]" User False "[]", THEN conjunct1]
    by (simp only: ids)
qed

section \<open>Properties of the base64 encoding\<close>

lemma index_of_nth:
  "distinct xs \<Longrightarrow> n < length xs \<Longrightarrow> index_of (xs ! n) xs = Some n"
proof (induction xs arbitrary: n)
  case Nil
  then show ?case by simp
next
  case (Cons x xs)
  show ?case
  proof (cases n)
    case 0
    then show ?thesis by simp
  next
    case (Suc k)
    then show ?thesis using Cons by auto
  qed
qed

lemma b64_alphabet_facts:
  "length b64_alphabet = 64"
  "distinct b64_alphabet"
  "CHR ''='' \<notin> set b64_alphabet"
  "\<forall>c \<in> set b64_alphabet. \<not> ascii_whitespace c"
  by (simp_all add: b64_alphabet_def ascii_whitespace_def)

lemma b64_value_char: "n < 64 \<Longrightarrow> b64_value (b64_char n) = Some n"
  by (simp add: b64_value_def b64_char_def index_of_nth b64_alphabet_facts)

lemma b64_char_in: "n < 64 \<Longrightarrow> b64_char n \<in> set b64_alphabet"
  by (simp add: b64_char_def b64_alphabet_facts)

lemma btoa_body_sextets: "btoa_body bs = map b64_char (sextets bs)"
  by (induction bs rule: sextets.induct) simp_all

lemma sextet_bounds:
  fixes a b c :: nat
  assumes "a < 256" "b < 256" "c < 256"
  shows "a div 4 < 64" "(a mod 4) * 16 + b div 16 < 64" "(b mod 16) * 4 + c div 64 < 64"
    "c mod 64 < 64" "(a mod 4) * 16 < 64" "(b mod 16) * 4 < 64"
proof -
  have "a mod 4 < 4" "b mod 16 < 16" by simp_all
  moreover have "a div 4 < 64" "b div 16 < 16" "c div 64 < 4"
    using assms by (simp_all add: div_less_iff_less_mult)
  ultimately show "a div 4 < 64" "(a mod 4) * 16 + b div 16 < 64" "(b mod 16) * 4 + c div 64 < 64"
    "c mod 64 < 64" "(a mod 4) * 16 < 64" "(b mod 16) * 4 < 64"
    by simp_all
qed

lemma sextet_back:
  fixes a b c :: nat
  assumes "a < 256" "b < 256" "c < 256"
  shows "(a div 4) * 4 + ((a mod 4) * 16 + b div 16) div 16 = a"
    "(((a mod 4) * 16 + b div 16) mod 16) * 16 + ((b mod 16) * 4 + c div 64) div 4 = b"
    "(((b mod 16) * 4 + c div 64) mod 4) * 64 + c mod 64 = c"
    "(a div 4) * 4 + ((a mod 4) * 16) div 16 = a"
    "(((a mod 4) * 16 + b div 16) mod 16) * 16 + ((b mod 16) * 4) div 4 = b"
proof -
  have b16: "b div 16 < 16" and c64: "c div 64 < 4"
    using assms by (simp_all add: div_less_iff_less_mult)
  show "(a div 4) * 4 + ((a mod 4) * 16 + b div 16) div 16 = a"
    using b16 by simp
  show "(((a mod 4) * 16 + b div 16) mod 16) * 16 + ((b mod 16) * 4 + c div 64) div 4 = b"
    using b16 c64 by simp
  show "(((b mod 16) * 4 + c div 64) mod 4) * 64 + c mod 64 = c"
    using c64 by simp
  show "(a div 4) * 4 + ((a mod 4) * 16) div 16 = a"
    by simp
  show "(((a mod 4) * 16 + b div 16) mod 16) * 16 + ((b mod 16) * 4) div 4 = b"
    using b16 by simp
qed


lemma sextets_lt: "\<forall>b \<in> set bs. b < 256 \<Longrightarrow> \<forall>v \<in> set (sextets bs). v < 64"
proof (induction bs rule: sextets.induct)
  case (1 a b c rest)
  then show ?case using sextet_bounds [of a b c] by simp
next
  case (2 a b)
  then show ?case using sextet_bounds [of a b 0] by simp
next
  case (3 a)
  then show ?case using sextet_bounds [of a 0 0] by simp
next
  case 4
  then show ?case by simp
qed

lemma atob_groups_sextets: "\<forall>b \<in> set bs. b < 256 \<Longrightarrow> atob_groups (sextets bs) = bs"
proof (induction bs rule: sextets.induct)
  case (1 a b c rest)
  then show ?case using sextet_back [of a b c] by simp
next
  case (2 a b)
  then show ?case using sextet_back [of a b 0] by simp
next
  case (3 a)
  then show ?case using sextet_back [of a 0 0] by simp
next
  case 4
  then show ?case by simp
qed

lemma length_sextets: "length (sextets bs) = (4 * length bs + 2) div 3"
  by (induction bs rule: sextets.induct) simp_all

lemma those_b64: "\<forall>v \<in> set vs. v < 64 \<Longrightarrow> those (map b64_value (map b64_char vs)) = Some vs"
  by (induction vs) (simp_all add: b64_value_char)


lemma sextets_chars:
  assumes "\<forall>b \<in> set bs. b < 256"
  shows "set (map b64_char (sextets bs)) \<subseteq> set b64_alphabet"
  using sextets_lt [OF assms] b64_char_in by auto

lemma pad_arith:
  fixes n :: nat
  shows "((4 * n + 2) div 3 + (3 - n mod 3) mod 3) mod 4 = 0"
    and "(4 * n + 2) div 3 mod 4 \<noteq> 1"
    and "(3 - n mod 3) mod 3 \<le> 2"
proof -
  define q r where "q = n div 3" and "r = n mod 3"
  have n: "n = 3 * q + r" and r: "r < 3" and nr: "n mod 3 = r" by (simp_all add: q_def r_def)
  have d: "(4 * n + 2) div 3 = 4 * q + (4 * r + 2) div 3"
  proof -
    have "4 * n + 2 = (4 * r + 2) + (4 * q) * 3" using n by simp
    then show ?thesis by simp
  qed
  have m: "(4 * q + x) mod 4 = x mod 4" for x :: nat
    by simp
  have f: "(4 * q + 0 + 0) mod 4 = 0" "(4 * q + 0) mod 4 \<noteq> 1"
    "(4 * q + 2 + 2) mod 4 = 0" "(4 * q + 2) mod 4 \<noteq> 1"
    "(4 * q + 3 + 1) mod 4 = 0" "(4 * q + 3) mod 4 \<noteq> 1"
    by presburger+
  have g: "(4 * 0 + 2) div 3 = (0::nat)" "(3 - 0) mod 3 = (0::nat)"
    "(4 * 1 + 2) div 3 = (2::nat)" "(3 - 1) mod 3 = (2::nat)"
    "(4 * 2 + 2) div 3 = (3::nat)" "(3 - 2) mod 3 = (1::nat)"
    by simp_all
  consider "r = 0" | "r = 1" | "r = 2" using r by linarith
  then have "((4 * q + (4 * r + 2) div 3) + (3 - r) mod 3) mod 4 = 0
     \<and> (4 * q + (4 * r + 2) div 3) mod 4 \<noteq> 1 \<and> (3 - r) mod 3 \<le> 2"
  proof cases
    case 1
    show ?thesis unfolding 1 g using f by simp
  next
    case 2
    show ?thesis unfolding 2 g using f by simp
  next
    case 3
    show ?thesis unfolding 3 g using f by simp
  qed
  then show "((4 * n + 2) div 3 + (3 - n mod 3) mod 3) mod 4 = 0"
    and "(4 * n + 2) div 3 mod 4 \<noteq> 1"
    and "(3 - n mod 3) mod 3 \<le> 2"
    unfolding d nr by blast+
qed


lemma strip_padding_btoa:
  assumes "set body \<subseteq> set b64_alphabet" "k \<le> 2"
    "length (body @ replicate k (CHR ''='')) mod 4 = 0"
  shows "strip_padding (body @ replicate k (CHR ''='')) = body"
proof -
  have ne: "body \<noteq> [] \<Longrightarrow> last body \<noteq> CHR ''=''"
    using assms(1) b64_alphabet_facts(3) last_in_set by fastforce
  consider "k = 0" | "k = 1" | "k = 2" using assms(2) by linarith
  then show ?thesis
  proof cases
    case 1
    then show ?thesis using ne by (cases body rule: rev_cases) (simp_all add: strip_padding_def)
  next
    case 2
    have "body @ replicate k (CHR ''='') = body @ [CHR ''='']" using 2 by simp
    then show ?thesis using ne assms(3)
      by (cases body rule: rev_cases) (simp_all add: strip_padding_def butlast_append)
  next
    case 3
    have "body @ replicate k (CHR ''='') = (body @ [CHR ''='']) @ [CHR ''='']"
      using 3 by (simp add: numeral_2_eq_2)
    then show ?thesis using assms(3) by (simp add: strip_padding_def butlast_append)
  qed
qed

lemma btoa_not_whitespace:
  assumes "set body \<subseteq> set b64_alphabet"
  shows "filter (\<lambda>c. \<not> ascii_whitespace c) (body @ replicate k (CHR ''='')) = body @ replicate k (CHR ''='')"
proof -
  have "\<not> ascii_whitespace (CHR ''='')" by (simp add: ascii_whitespace_def)
  moreover have "\<forall>c \<in> set body. \<not> ascii_whitespace c"
    using assms b64_alphabet_facts(4) by blast
  ultimately have "\<forall>c \<in> set (body @ replicate k (CHR ''='')). \<not> ascii_whitespace c"
    by auto
  then show ?thesis by (simp only: filter_True)
qed

lemma atob_btoa: "atob (btoa s) = Some s"
proof -
  let ?bs = "map of_char s :: nat list"
  let ?body = "map b64_char (sextets ?bs)"
  let ?k = "(3 - length s mod 3) mod 3"
  have bytes: "\<forall>b \<in> set ?bs. b < 256" by simp
  have chars: "set ?body \<subseteq> set b64_alphabet" by (rule sextets_chars [OF bytes])
  have enc: "btoa s = ?body @ replicate ?k (CHR ''='')"
    by (simp add: btoa_def btoa_body_sextets)
  have nows: "filter (\<lambda>c. \<not> ascii_whitespace c) (btoa s) = btoa s"
    unfolding enc by (rule btoa_not_whitespace [OF chars])
  have len: "length ?body = (4 * length s + 2) div 3" by (simp add: length_sextets)
  have k: "?k \<le> 2" by (rule pad_arith(3))
  have tot: "length (?body @ replicate ?k (CHR ''='')) mod 4 = 0"
    unfolding length_append length_replicate len by (rule pad_arith(1))
  have strip: "strip_padding (btoa s) = ?body"
    unfolding enc by (rule strip_padding_btoa [OF chars k tot])
  have not1: "length ?body mod 4 \<noteq> 1"
    unfolding len by (rule pad_arith(2))
  have dec: "those (map b64_value ?body) = Some (sextets ?bs)"
    by (rule those_b64 [OF sextets_lt [OF bytes]])
  have rt: "map char_of (atob_groups (sextets ?bs)) = s"
    by (simp add: atob_groups_sextets [OF bytes] comp_def)
  show ?thesis
    unfolding atob_def nows strip Let_def using not1 dec rt by simp
qed

section \<open>Properties of the PCM codec\<close>

lemma int16_bytes_le:
  assumes "- 32768 \<le> v" "v \<le> 32767"
  shows "\<exists>lo hi. int16_bytes v = [lo, hi] \<and> lo < 256 \<and> hi < 256 \<and> int16_le lo hi = v"
proof -
  define u where "u = nat (v mod 65536)"
  have u: "u < 65536" "int u = v mod 65536" by (simp_all add: u_def)
  have hi: "u div 256 < 256" using u(1) by (simp add: div_less_iff_less_mult)
  have "int (u mod 256 + 256 * (u div 256)) = int u"
    by simp
  then have split: "int (u mod 256) + 256 * int (u div 256) = int u"
    by (simp only: of_nat_add of_nat_mult of_nat_numeral)
  have v: "v = (if 32768 \<le> int u then int u - 65536 else int u)"
  proof -
    consider "0 \<le> v" | "v < 0" by linarith
    then show ?thesis
    proof cases
      case 1
      then have "v mod 65536 = v" using assms by simp
      then show ?thesis using u(2) assms by simp
    next
      case 2
      have "(v + 65536) mod 65536 = v + 65536"
        using 2 assms by (intro mod_pos_pos_trivial) simp_all
      then have "v mod 65536 = v + 65536" by simp
      then show ?thesis using u(2) assms by simp
    qed
  qed
  have "int16_bytes v = [u mod 256, u div 256]"
    by (simp add: int16_bytes_def u_def Let_def)
  moreover have "int16_le (u mod 256) (u div 256) = v"
    unfolding int16_le_def Let_def split using v by simp
  ultimately show ?thesis using hi by simp
qed


lemma int16_buffer_pairs:
  assumes "\<forall>v \<in> set vs. - 32768 \<le> v \<and> v \<le> 32767"
  shows "int16_pairs (int16_buffer vs) = vs \<and> even (length (int16_buffer vs))
    \<and> (\<forall>b \<in> set (int16_buffer vs). b < 256)"
  using assms
proof (induction vs)
  case Nil
  then show ?case by (simp add: int16_buffer_def)
next
  case (Cons v vs)
  obtain lo hi where b: "int16_bytes v = [lo, hi]" "lo < 256" "hi < 256" "int16_le lo hi = v"
    using int16_bytes_le [of v] Cons.prems by auto
  have "int16_buffer (v # vs) = lo # hi # int16_buffer vs"
    by (simp add: int16_buffer_def b(1))
  then show ?case using Cons b by simp
qed

lemma bytes_chars: "\<forall>b \<in> set bs. b < (256::nat) \<Longrightarrow> map of_char (map char_of bs) = bs"
  by (induction bs) simp_all

lemma base64_roundtrip:
  "\<forall>b \<in> set bs. b < 256 \<Longrightarrow> base64ToUint8Array (arrayBufferToBase64 bs) = Inr bs"
  by (simp add: base64ToUint8Array_def arrayBufferToBase64_def atob_btoa bytes_chars del: map_map)

lemma decode_int16_buffer:
  assumes "\<forall>v \<in> set vs. - 32768 \<le> v \<and> v \<le> 32767" "vs \<noteq> []" "0 < rate"
  shows "decodeAudioData (int16_buffer vs) rate 1 =
    Inr \<lparr>sampleRate = rate, frames = length vs,
         channelData = [map (\<lambda>v. of_int v / 32768) vs]\<rparr>"
proof -
  note p = int16_buffer_pairs [OF assms(1)]
  have m: "map (\<lambda>i. of_int (vs ! i) / (32768::rat)) [0..<length vs] = map (\<lambda>v. of_int v / 32768) vs"
    by (rule nth_equalityI) simp_all
  show ?thesis
    using p assms(2,3) by (simp add: decodeAudioData_def Int16Array_def createBuffer_def m)
qed

lemma decode_int16_buffer_empty:
  "decodeAudioData (int16_buffer []) rate 1 = Inl NotSupportedError"
  by (simp add: decodeAudioData_def Int16Array_def createBuffer_def int16_buffer_def)

lemma toInt16_in_range:
  assumes "- 32768 \<le> n" "n \<le> 32767"
  shows "(n + 32768) mod 65536 - 32768 = (n::int)"
proof -
  have "(n + 32768) mod 65536 = n + 32768"
    using assms by (intro mod_pos_pos_trivial) simp_all
  then show ?thesis by simp
qed

lemma pcm_sample_neg:
  assumes "- 1 \<le> x" "x < 0"
  shows "pcm_sample x = \<lceil>x * 32768\<rceil>" "- 32768 \<le> pcm_sample x" "pcm_sample x \<le> 0"
    "x \<le> of_int (pcm_sample x) / 32768" "of_int (pcm_sample x) / 32768 - x < 1 / 32768"
proof -
  let ?y = "x * 32768"
  have y: "- 32768 \<le> ?y" "?y < 0" using assms by simp_all
  have c1: "- 32768 \<le> \<lceil>?y\<rceil>"
    using y(1) by (metis ceiling_mono ceiling_of_int of_int_minus of_int_numeral)
  have c2: "\<lceil>?y\<rceil> \<le> 0" using y(2) by (simp add: ceiling_le_iff)
  have s: "max (- 1) (min 1 x) = x" using assms by simp
  have "pcm_sample x = (\<lceil>?y\<rceil> + 32768) mod 65536 - 32768"
    unfolding pcm_sample_def Let_def s toInt16_def using assms(2) y by simp
  moreover have "\<lceil>?y\<rceil> \<le> 32767" using c2 by simp
  ultimately show q: "pcm_sample x = \<lceil>?y\<rceil>"
    by (simp only: toInt16_in_range [OF c1])
  show "- 32768 \<le> pcm_sample x" "pcm_sample x \<le> 0" using q c1 c2 by simp_all
  have f: "?y \<le> of_int \<lceil>?y\<rceil>" "of_int \<lceil>?y\<rceil> < ?y + 1" by linarith+
  have "x = ?y / 32768" by simp
  also have "\<dots> \<le> of_int \<lceil>?y\<rceil> / 32768" using f(1) by (simp only: divide_right_mono)
  finally show "x \<le> of_int (pcm_sample x) / 32768" unfolding q .
  have "of_int \<lceil>?y\<rceil> / 32768 < (?y + 1) / 32768"
    using f(2) by (simp only: divide_strict_right_mono)
  also have "\<dots> = x + 1 / 32768" by (simp add: add_divide_distrib)
  finally show "of_int (pcm_sample x) / 32768 - x < 1 / 32768" unfolding q by simp
qed

lemma pcm_sample_nonneg:
  assumes "0 \<le> x" "x \<le> 1"
  shows "pcm_sample x = \<lfloor>x * 32767\<rfloor>" "0 \<le> pcm_sample x" "pcm_sample x \<le> 32767"
    "of_int (pcm_sample x) / 32768 \<le> x" "x - of_int (pcm_sample x) / 32768 < (1 + x) / 32768"
proof -
  let ?y = "x * 32767"
  have y: "0 \<le> ?y" "?y \<le> 32767" using assms by simp_all
  have c1: "0 \<le> \<lfloor>?y\<rfloor>" using y(1) by simp
  have c2: "\<lfloor>?y\<rfloor> \<le> 32767"
    using y(2) by (metis floor_mono floor_of_int of_int_numeral)
  have s: "max (- 1) (min 1 x) = x" using assms by simp
  have "pcm_sample x = (\<lfloor>?y\<rfloor> + 32768) mod 65536 - 32768"
    unfolding pcm_sample_def Let_def s toInt16_def using assms(1) y by simp
  moreover have "- 32768 \<le> \<lfloor>?y\<rfloor>" using c1 by simp
  ultimately show q: "pcm_sample x = \<lfloor>?y\<rfloor>"
    by (simp only: toInt16_in_range [OF _ c2])
  show "0 \<le> pcm_sample x" "pcm_sample x \<le> 32767" using q c1 c2 by simp_all
  have f: "of_int \<lfloor>?y\<rfloor> \<le> ?y" "?y - 1 < of_int \<lfloor>?y\<rfloor>" by linarith+
  have "of_int \<lfloor>?y\<rfloor> \<le> x * 32768" using f(1) assms(1) by linarith
  then have "of_int \<lfloor>?y\<rfloor> / 32768 \<le> x * 32768 / 32768"
    by (simp only: divide_right_mono)
  then show "of_int (pcm_sample x) / 32768 \<le> x" unfolding q by simp
  have "(?y - 1) / 32768 < of_int \<lfloor>?y\<rfloor> / 32768"
    using f(2) by (simp only: divide_strict_right_mono)
  moreover have "(?y - 1) / 32768 = x - (1 + x) / 32768"
    by (simp add: field_simps)
  ultimately show "x - of_int (pcm_sample x) / 32768 < (1 + x) / 32768"
    unfolding q by linarith
qed

lemma pcm_sample_range:
  assumes "- 1 \<le> x" "x \<le> 1"
  shows "- 32768 \<le> pcm_sample x \<and> pcm_sample x \<le> 32767"
proof -
  consider "x < 0" | "0 \<le> x" by linarith
  then show ?thesis
  proof cases
    case 1
    then show ?thesis using pcm_sample_neg(2,3) [OF assms(1)] by simp
  next
    case 2
    then show ?thesis using pcm_sample_nonneg(2,3) [OF _ assms(2)] by simp
  qed
qed

lemma roundTrip_eq:
  assumes "\<forall>x \<in> set samples. - 1 \<le> x \<and> x \<le> 1"
  shows "roundTrip samples =
    (if samples = [] then Inl NotSupportedError
     else Inr \<lparr>sampleRate = 24000, frames = length samples,
               channelData = [map (\<lambda>x. of_int (pcm_sample x) / 32768) samples]\<rparr>)"
proof -
  let ?vs = "map pcm_sample samples"
  have r: "\<forall>v \<in> set ?vs. - 32768 \<le> v \<and> v \<le> 32767"
    using assms pcm_sample_range by auto
  note p = int16_buffer_pairs [OF r]
  have b: "base64ToUint8Array (data (createPcmBlob samples)) = Inr (int16_buffer ?vs)"
    using p by (simp add: createPcmBlob_def base64_roundtrip)
  have d: "roundTrip samples = decodeAudioData (int16_buffer ?vs) 24000 1"
    by (simp add: roundTrip_def decodeChunk_def b)
  show ?thesis
  proof (cases samples)
    case Nil
    then show ?thesis using d decode_int16_buffer_empty by simp
  next
    case (Cons x xs)
    then have "?vs \<noteq> []" by simp
    then show ?thesis
      using d decode_int16_buffer [OF r, of 24000] Cons by (simp add: comp_def)
  qed
qed

text \<open>
  Claim C2, as stated, fails: the sample \<open>65535 / 65536\<close> (a float of 16 significant
  bits) is scaled by 32767 to \<open>32766.5...\<close>, truncated to 32766 and decoded by a
  division by 32768, so it comes back as \<open>16383 / 16384\<close>, which is \<open>3 / 65536\<close>
  away from it: more than \<open>1 / 32768\<close>.
\<close>

theorem pcm_round_trip_counterexample:
  "- 1 \<le> (65535 / 65536 :: rat) \<and> (65535 / 65536 :: rat) \<le> 1
   \<and> roundTrip [65535 / 65536] =
       Inr \<lparr>sampleRate = 24000, frames = 1, channelData = [[16383 / 16384]]\<rparr>
   \<and> \<not> \<bar>16383 / 16384 - 65535 / 65536\<bar> \<le> (1 / 32768 :: rat)"
proof -
  have h: "\<forall>x \<in> set [65535 / 65536 :: rat]. - 1 \<le> x \<and> x \<le> 1" by simp
  have v: "pcm_sample (65535 / 65536) = 32766" by code_simp
  have "roundTrip [65535 / 65536] =
       Inr \<lparr>sampleRate = 24000, frames = 1, channelData = [[16383 / 16384]]\<rparr>"
    using roundTrip_eq [OF h] by (simp add: v)
  then show ?thesis by simp
qed


text \<open>
  Claim C2, amended. For a buffer whose samples all lie in [-1, 1], encoding with
  createPcmBlob and decoding the payload with base64ToUint8Array and decodeAudioData (at
  24000 Hz, one channel) gives, for a buffer that is not empty, one channel of the same
  length whose samples are the 16-bit values divided by 32768. Each differs from its
  input sample by less than \<open>2 / 32768\<close>: a negative sample is scaled by 32768,
  comes back no smaller and less than \<open>1 / 32768\<close> larger; a non-negative sample
  \<open>x\<close> is scaled by 32767, comes back no larger and less than \<open>(1 + x) / 32768\<close>
  smaller. The empty buffer encodes to the empty payload, which does not decode:
  createBuffer rejects a buffer of no frames.
\<close>

theorem pcm_round_trip:
  assumes "\<forall>x \<in> set samples. - 1 \<le> x \<and> x \<le> 1"
  shows "roundTrip samples =
    (if samples = [] then Inl NotSupportedError
     else Inr \<lparr>sampleRate = 24000, frames = length samples,
               channelData = [map (\<lambda>x. of_int (pcm_sample x) / 32768) samples]\<rparr>)
   \<and> (\<forall>x \<in> set samples.
        \<bar>of_int (pcm_sample x) / 32768 - x\<bar> < 2 / 32768
        \<and> (x < 0 \<longrightarrow> x \<le> of_int (pcm_sample x) / 32768
                     \<and> of_int (pcm_sample x) / 32768 - x < 1 / 32768)
        \<and> (0 \<le> x \<longrightarrow> of_int (pcm_sample x) / 32768 \<le> x
                     \<and> x - of_int (pcm_sample x) / 32768 < (1 + x) / 32768))"
proof -
  have "\<bar>of_int (pcm_sample x) / 32768 - x\<bar> < 2 / 32768
        \<and> (x < 0 \<longrightarrow> x \<le> of_int (pcm_sample x) / 32768
                     \<and> of_int (pcm_sample x) / 32768 - x < 1 / 32768)
        \<and> (0 \<le> x \<longrightarrow> of_int (pcm_sample x) / 32768 \<le> x
                     \<and> x - of_int (pcm_sample x) / 32768 < (1 + x) / 32768)"
    if x: "- 1 \<le> x" "x \<le> 1" for x
  proof -
    consider "x < 0" | "0 \<le> x" by linarith
    then show ?thesis
    proof cases
      case 1
      then show ?thesis using pcm_sample_neg(4,5) [OF x(1) 1] by simp
    next
      case 2
      have "(1 + x) / 32768 \<le> 2 / 32768" using x(2) by simp
      then show ?thesis using pcm_sample_nonneg(4,5) [OF 2 x(2)] 2 by simp
    qed
  qed
  then show ?thesis using roundTrip_eq [OF assms] assms by blast
qed


theorem pcm_round_trip_witness:
  "roundTrip [1, - 1, 1 / 2] =
     Inr \<lparr>sampleRate = 24000, frames = 3,
          channelData = [[32767 / 32768, - 1, 16383 / 32768]]\<rparr>"
proof -
  have h: "\<forall>x \<in> set [1, - 1, 1 / 2 :: rat]. - 1 \<le> x \<and> x \<le> 1" by simp
  have v: "pcm_sample 1 = 32767" "pcm_sample (- 1) = - 32768" "pcm_sample (1 / 2) = 16383"
    by code_simp+
  show ?thesis using pcm_round_trip [OF h] by (simp add: v)
qed

section \<open>Properties of the rounding\<close>

text \<open>
  The exponent brackets its argument, and rounding is odd, monotone and idempotent,
  fixes the powers of two of the format and errs by at most half a unit in the last
  place: relatively by \<open>2 ^ -p\<close> on the normal range. The fractional part of a
  value of the format that is not negative is at most \<open>1 - 2 ^ -p\<close> (\<open>rnd_frac_le\<close>),
  and an interpolation step computed with roundings stays between its two end points
  (\<open>interp_between\<close>).
\<close>

lemma powi_pos: "0 < (2::rat) powi e"
  by simp

lemma powi_add: "(2::rat) powi (a + b) = 2 powi a * 2 powi b"
  by (simp add: power_int_add)

lemma powi_diff: "(2::rat) powi (a - b) = 2 powi a / 2 powi b"
  by (simp add: power_int_diff)

lemma powi_mono: "a \<le> b \<Longrightarrow> (2::rat) powi a \<le> 2 powi b"
  by (simp add: power_int_increasing)

lemma powi_strict_mono: "a < b \<Longrightarrow> (2::rat) powi a < 2 powi b"
  by (simp add: power_int_strict_increasing)

lemma powi_less_cancel: "(2::rat) powi a < 2 powi b \<Longrightarrow> a < b"
  using powi_mono [of b a] by (rule_tac ccontr) simp

lemma powi_succ: "(2::rat) powi (e + 1) = 2 * 2 powi e"
  by (simp add: power_int_add)

lemma powi_nat: "0 \<le> e \<Longrightarrow> (2::rat) powi e = of_int (2 ^ nat e)"
  by (simp add: power_int_def)

lemma expo_bounds:
  assumes "0 < x"
  shows "2 powi (expo x) \<le> x" "x < 2 powi (expo x + 1)"
proof -
  obtain p q where pq: "quotient_of x = (p, q)" by (meson surj_pair)
  have q: "0 < q" using quotient_of_denom_pos [OF pq] .
  have x: "x = of_int p / of_int q" using quotient_of_div [OF pq] .
  have p: "0 < p" using assms q x by (simp add: zero_less_divide_iff)
  define k where "k = bitlen p - bitlen q"
  have bp: "(2::rat) powi (bitlen p - 1) \<le> of_int p" "of_int p < (2::rat) powi (bitlen p)"
  proof -
    have b: "1 \<le> bitlen p" using p by (simp add: bitlen_alt_def)
    have "2 ^ nat (bitlen p - 1) \<le> p" "p < 2 ^ nat (bitlen p)" using bitlen_bounds [OF p] by simp_all
    then have "(of_int (2 ^ nat (bitlen p - 1)) :: rat) \<le> of_int p" "(of_int p :: rat) < of_int (2 ^ nat (bitlen p))"
      by (simp_all only: of_int_le_iff of_int_less_iff)
    then show "(2::rat) powi (bitlen p - 1) \<le> of_int p" "of_int p < (2::rat) powi (bitlen p)"
      using b by (simp_all add: powi_nat)
  qed
  have bq: "(2::rat) powi (bitlen q - 1) \<le> of_int q" "of_int q < (2::rat) powi (bitlen q)"
  proof -
    have b: "1 \<le> bitlen q" using q by (simp add: bitlen_alt_def)
    have "2 ^ nat (bitlen q - 1) \<le> q" "q < 2 ^ nat (bitlen q)" using bitlen_bounds [OF q] by simp_all
    then have "(of_int (2 ^ nat (bitlen q - 1)) :: rat) \<le> of_int q" "(of_int q :: rat) < of_int (2 ^ nat (bitlen q))"
      by (simp_all only: of_int_le_iff of_int_less_iff)
    then show "(2::rat) powi (bitlen q - 1) \<le> of_int q" "of_int q < (2::rat) powi (bitlen q)"
      using b by (simp_all add: powi_nat)
  qed
  have qpos: "(0::rat) < of_int q" using q by simp
  have up: "x < 2 powi (k + 1)"
  proof -
    have "x * of_int q = of_int p" using x qpos by simp
    also have "\<dots> < 2 powi (bitlen p)" by (rule bp(2))
    also have "\<dots> = 2 powi (k + 1) * 2 powi (bitlen q - 1)"
      by (simp add: k_def flip: powi_add)
    also have "\<dots> \<le> 2 powi (k + 1) * of_int q"
      using bq(1) by (simp add: mult_left_mono)
    finally show ?thesis using qpos by simp
  qed
  have lo: "2 powi (k - 1) < x"
  proof -
    have "(2::rat) powi (k - 1) * of_int q < 2 powi (k - 1) * 2 powi (bitlen q)"
      using bq(2) by (simp add: mult_strict_left_mono)
    also have "\<dots> = 2 powi (bitlen p - 1)"
      by (simp add: k_def flip: powi_add)
    also have "\<dots> \<le> of_int p" by (rule bp(1))
    also have "\<dots> = x * of_int q" using x qpos by simp
    finally show ?thesis using qpos by simp
  qed
  have e: "expo x = (if 2 powi k \<le> x then k else k - 1)"
    by (simp add: expo_def pq k_def Let_def)
  show "2 powi (expo x) \<le> x" using lo e by (simp add: less_imp_le)
  show "x < 2 powi (expo x + 1)" using up e by (simp add: not_le)
qed

lemma expo_unique:
  assumes "2 powi e \<le> x" "x < 2 powi (e + 1)"
  shows "expo x = e"
proof -
  have x: "0 < x" using assms(1) powi_pos [of e] by linarith
  note b = expo_bounds [OF x]
  have "2 powi e < (2::rat) powi (expo x + 1)" using assms(1) b(2) by linarith
  then have "e < expo x + 1" by (rule powi_less_cancel)
  moreover have "2 powi (expo x) < (2::rat) powi (e + 1)" using assms(2) b(1) by linarith
  then have "expo x < e + 1" by (rule powi_less_cancel)
  ultimately show ?thesis by linarith
qed

lemma expo_mono:
  assumes "0 < x" "x \<le> y"
  shows "expo x \<le> expo y"
proof -
  have y: "0 < y" using assms by linarith
  have "2 powi (expo x) \<le> x" using expo_bounds(1) [OF assms(1)] .
  also have "x \<le> y" by fact
  also have "y < 2 powi (expo y + 1)" using expo_bounds(2) [OF y] .
  finally have "expo x < expo y + 1" by (rule powi_less_cancel)
  then show ?thesis by linarith
qed

lemma round_even_cases:
  "round_even y = \<lfloor>y\<rfloor> \<and> y - of_int \<lfloor>y\<rfloor> \<le> 1 / 2
   \<or> round_even y = \<lfloor>y\<rfloor> + 1 \<and> 1 / 2 \<le> y - of_int \<lfloor>y\<rfloor>"
  by (simp add: round_even_def Let_def)

lemma round_even_err:
  "y - 1 / 2 \<le> of_int (round_even y)" "of_int (round_even y) \<le> y + 1 / 2"
proof -
  have f: "of_int \<lfloor>y\<rfloor> \<le> y" "y < of_int \<lfloor>y\<rfloor> + 1" by linarith+
  consider (down) "round_even y = \<lfloor>y\<rfloor>" "y - of_int \<lfloor>y\<rfloor> \<le> 1 / 2"
    | (up) "round_even y = \<lfloor>y\<rfloor> + 1" "1 / 2 \<le> y - of_int \<lfloor>y\<rfloor>"
    using round_even_cases [of y] by blast
  then have "y - 1 / 2 \<le> of_int (round_even y) \<and> of_int (round_even y) \<le> y + 1 / 2"
  proof cases
    case down
    show ?thesis unfolding down(1) using down(2) f by linarith
  next
    case up
    have "(of_int (\<lfloor>y\<rfloor> + 1) :: rat) = of_int \<lfloor>y\<rfloor> + 1" by simp
    then show ?thesis unfolding up(1) using up(2) f by linarith
  qed
  then show "y - 1 / 2 \<le> of_int (round_even y)" "of_int (round_even y) \<le> y + 1 / 2"
    by simp_all
qed

lemma round_even_of_int: "round_even (of_int k) = k"
  by (simp add: round_even_def)

lemma round_even_mono:
  assumes "y \<le> z"
  shows "round_even y \<le> round_even z"
proof -
  have fm: "\<lfloor>y\<rfloor> \<le> \<lfloor>z\<rfloor>" using assms by (rule floor_mono)
  consider "\<lfloor>y\<rfloor> < \<lfloor>z\<rfloor>" | "\<lfloor>y\<rfloor> = \<lfloor>z\<rfloor>" using fm by linarith
  then show ?thesis
  proof cases
    case 1
    have "round_even y \<le> \<lfloor>y\<rfloor> + 1" using round_even_cases [of y] by linarith
    also have "\<dots> \<le> \<lfloor>z\<rfloor>" using 1 by simp
    also have "\<dots> \<le> round_even z" using round_even_cases [of z] by linarith
    finally show ?thesis .
  next
    case 2
    have d: "y - of_int \<lfloor>y\<rfloor> \<le> z - of_int \<lfloor>z\<rfloor>" using assms 2 by simp
    show ?thesis using d 2 by (simp add: round_even_def Let_def)
  qed
qed

lemma round_even_nonneg: "0 \<le> y \<Longrightarrow> 0 \<le> round_even y"
  using round_even_mono [of 0 y] round_even_of_int [of 0] by simp

lemma scale_pos: "0 < scale p emin x"
  by (simp add: scale_def)

lemma rnd_0: "rnd p emin 0 = 0"
  by (simp add: rnd_def)

lemma rnd_pos_eq:
  "0 < x \<Longrightarrow> rnd p emin x = of_int (round_even (x / scale p emin x)) * scale p emin x"
  by (simp add: rnd_def scale_def Let_def)

lemma rnd_minus: "rnd p emin (- x) = - rnd p emin x"
  by (simp add: rnd_def Let_def)

lemma rnd_neg_eq: "x < 0 \<Longrightarrow> rnd p emin x = - rnd p emin (- x)"
  by (simp add: rnd_minus)

lemma pow_scale: "(2::rat) ^ p * 2 powi (E - int p + 1) = 2 powi (E + 1)"
proof -
  have "(2::rat) powi (int p) * 2 powi (E - int p + 1) = 2 powi (int p + (E - int p + 1))"
    by (simp only: powi_add)
  then show ?thesis by simp
qed

lemma pow_scale': "1 \<le> p \<Longrightarrow> (2::rat) ^ (p - 1) * 2 powi (E - int p + 1) = 2 powi E"
proof -
  assume "1 \<le> p"
  then obtain n where p: "p = Suc n" by (cases p) auto
  have "(2::rat) ^ n * 2 powi (E - int n) = 2 powi (int n) * 2 powi (E - int n)" by simp
  also have "\<dots> = 2 powi (int n + (E - int n))" by (simp only: powi_add)
  also have "\<dots> = 2 powi E" by simp
  finally show ?thesis by (simp add: p)
qed

lemma scale_mono:
  assumes "0 < x" "x \<le> y"
  shows "scale p emin x \<le> scale p emin y"
  unfolding scale_def using expo_mono [OF assms] by (intro powi_mono) linarith

lemma quot_less:
  assumes "0 < x"
  shows "x / scale p emin x < 2 ^ p"
proof -
  let ?E = "max (expo x) emin"
  have "x < 2 powi (expo x + 1)" by (rule expo_bounds(2) [OF assms])
  also have "\<dots> \<le> 2 powi (?E + 1)" by (intro powi_mono) linarith
  also have "\<dots> = 2 ^ p * scale p emin x"
    by (simp only: scale_def pow_scale)
  finally have "x < 2 ^ p * scale p emin x" .
  then show ?thesis using scale_pos [of p emin x] by (simp add: pos_divide_less_eq)
qed

lemma quot_ge:
  assumes "0 < x" "emin \<le> expo x" "1 \<le> p"
  shows "2 ^ (p - 1) \<le> x / scale p emin x"
proof -
  have m: "max (expo x) emin = expo x" using assms(2) by simp
  have "2 ^ (p - 1) * scale p emin x = 2 powi (expo x)"
    by (simp only: scale_def m pow_scale' [OF assms(3)])
  also have "\<dots> \<le> x" by (rule expo_bounds(1) [OF assms(1)])
  finally have "2 ^ (p - 1) * scale p emin x \<le> x" .
  then show ?thesis using scale_pos [of p emin x] by (simp add: pos_le_divide_eq)
qed

lemma mant_le:
  assumes "0 < x"
  shows "round_even (x / scale p emin x) \<le> 2 ^ p"
proof -
  have "x / scale p emin x \<le> of_int (2 ^ p)" using quot_less [OF assms, of p emin] by simp
  then have "round_even (x / scale p emin x) \<le> round_even (of_int (2 ^ p))"
    by (rule round_even_mono)
  then show ?thesis by (simp only: round_even_of_int)
qed

lemma mant_ge:
  assumes "0 < x" "emin \<le> expo x" "1 \<le> p"
  shows "2 ^ (p - 1) \<le> round_even (x / scale p emin x)"
proof -
  have "of_int (2 ^ (p - 1)) \<le> x / scale p emin x" using quot_ge [OF assms] by simp
  then have "round_even (of_int (2 ^ (p - 1))) \<le> round_even (x / scale p emin x)"
    by (rule round_even_mono)
  then show ?thesis by (simp only: round_even_of_int)
qed

lemma mant_nonneg: "0 < x \<Longrightarrow> 0 \<le> round_even (x / scale p emin x)"
  using scale_pos [of p emin x] by (intro round_even_nonneg) simp

lemma rnd_nonneg: "0 \<le> x \<Longrightarrow> 0 \<le> rnd p emin x"
proof -
  assume "0 \<le> x"
  then consider "x = 0" | "0 < x" by linarith
  then show ?thesis
  proof cases
    case 1
    then show ?thesis by (simp add: rnd_0)
  next
    case 2
    show ?thesis unfolding rnd_pos_eq [OF 2]
      using mant_nonneg [OF 2, of p emin] scale_pos [of p emin x] by simp
  qed
qed

lemma rnd_le_pow:
  assumes "0 < x"
  shows "rnd p emin x \<le> 2 powi (max (expo x) emin + 1)"
proof -
  have "rnd p emin x \<le> of_int (2 ^ p) * scale p emin x"
    unfolding rnd_pos_eq [OF assms]
    using mant_le [OF assms, of p emin] scale_pos [of p emin x]
    by (intro mult_right_mono) (simp_all only: of_int_le_iff less_imp_le)
  also have "\<dots> = 2 powi (max (expo x) emin + 1)"
    by (simp only: of_int_power of_int_numeral scale_def pow_scale)
  finally show ?thesis .
qed

lemma rnd_ge_pow:
  assumes "0 < x" "emin \<le> expo x" "1 \<le> p"
  shows "2 powi (expo x) \<le> rnd p emin x"
proof -
  have m: "max (expo x) emin = expo x" using assms(2) by simp
  have "2 powi (expo x) = of_int (2 ^ (p - 1)) * scale p emin x"
    by (simp only: of_int_power of_int_numeral scale_def m pow_scale' [OF assms(3)])
  also have "\<dots> \<le> rnd p emin x"
    unfolding rnd_pos_eq [OF assms(1)]
    using mant_ge [OF assms] scale_pos [of p emin x]
    by (intro mult_right_mono) (simp_all only: of_int_le_iff less_imp_le)
  finally show ?thesis .
qed

lemma rnd_abs_err_pos:
  assumes "0 < x"
  shows "\<bar>rnd p emin x - x\<bar> \<le> scale p emin x / 2"
proof -
  let ?s = "scale p emin x"
  let ?m = "of_int (round_even (x / ?s)) :: rat"
  have s: "0 < ?s" by (rule scale_pos)
  have "\<bar>?m - x / ?s\<bar> \<le> 1 / 2" using round_even_err [of "x / ?s"] by linarith
  then have "\<bar>?m - x / ?s\<bar> * ?s \<le> 1 / 2 * ?s" using s by (intro mult_right_mono) simp_all
  moreover have "\<bar>?m - x / ?s\<bar> * ?s = \<bar>?m * ?s - x\<bar>"
  proof -
    have "\<bar>?m - x / ?s\<bar> * ?s = \<bar>(?m - x / ?s) * ?s\<bar>" using s by (simp add: abs_mult)
    also have "(?m - x / ?s) * ?s = ?m * ?s - x" using s by (simp add: field_simps)
    finally show ?thesis .
  qed
  ultimately show ?thesis by (simp add: rnd_pos_eq [OF assms])
qed

lemma expo_powi: "expo (2 powi e) = e"
  by (rule expo_unique) (simp_all add: powi_strict_mono)

lemma expo_ge:
  assumes "2 powi emin \<le> x"
  shows "emin \<le> expo x"
  using expo_mono [of "2 powi emin" x] assms by (simp add: expo_powi)

lemma rnd_rel_err_pos:
  assumes "2 powi emin \<le> x"
  shows "\<bar>rnd p emin x - x\<bar> \<le> x * 2 powi (- int p)"
proof -
  have x: "0 < x" using assms powi_pos [of emin] by linarith
  have m: "max (expo x) emin = expo x" using expo_ge [OF assms] by simp
  have "scale p emin x / 2 = 2 powi (expo x) * 2 powi (- int p)"
  proof -
    have "2 powi (expo x) * 2 powi (- int p) * (2::rat) = 2 powi (expo x) * 2 powi (- int p) * 2 powi 1"
      by simp
    also have "\<dots> = 2 powi (expo x + (- int p) + 1)" by (simp only: powi_add)
    also have "\<dots> = scale p emin x" by (simp add: scale_def m)
    finally show ?thesis by simp
  qed
  also have "\<dots> \<le> x * 2 powi (- int p)"
    using expo_bounds(1) [OF x] by (intro mult_right_mono) simp_all
  finally show ?thesis using rnd_abs_err_pos [OF x, of p emin] by linarith
qed

lemma rnd_rel_err:
  assumes "2 powi emin \<le> \<bar>x\<bar>"
  shows "\<bar>rnd p emin x - x\<bar> \<le> \<bar>x\<bar> * 2 powi (- int p)"
proof -
  consider "0 \<le> x" | "x < 0" by linarith
  then show ?thesis
  proof cases
    case 1
    then show ?thesis using rnd_rel_err_pos [of emin x p] assms by simp
  next
    case 2
    have "\<bar>rnd p emin x - x\<bar> = \<bar>rnd p emin (- x) - (- x)\<bar>"
      by (simp add: rnd_minus)
    then show ?thesis using rnd_rel_err_pos [of emin "- x" p] assms 2 by simp
  qed
qed

lemma rnd_fix:
  assumes "0 < x" "x / scale p emin x = of_int m"
  shows "rnd p emin x = x"
proof -
  have "rnd p emin x = of_int m * scale p emin x"
    by (simp only: rnd_pos_eq [OF assms(1)] assms(2) round_even_of_int)
  also have "\<dots> = x" using scale_pos [of p emin x] assms(2) by (simp add: field_simps)
  finally show ?thesis .
qed

lemma rnd_pos_idem:
  assumes "0 < x" "1 \<le> p"
  shows "rnd p emin (rnd p emin x) = rnd p emin x"
proof -
  let ?E = "max (expo x) emin"
  let ?s = "scale p emin x"
  let ?m = "round_even (x / ?s)"
  let ?y = "rnd p emin x"
  have y: "?y = of_int ?m * ?s" by (rule rnd_pos_eq [OF assms(1)])
  have s: "0 < ?s" by (rule scale_pos)
  have m0: "0 \<le> ?m" by (rule mant_nonneg [OF assms(1)])
  consider "?m = 0" | "0 < ?m" "?y = 2 powi (?E + 1)" | "0 < ?m" "?y < 2 powi (?E + 1)"
    using m0 rnd_le_pow [OF assms(1), of p emin] by linarith
  then show ?thesis
  proof cases
    case 1
    then show ?thesis by (simp add: y rnd_0)
  next
    case 2
    have e: "expo ?y = ?E + 1" unfolding 2(2) by (rule expo_powi)
    have sy: "scale p emin ?y = 2 powi (?E + 1 - int p + 1)"
      by (simp add: scale_def e)
    have "?y / scale p emin ?y = 2 powi (?E + 1) / 2 powi (?E + 1 - int p + 1)"
      by (subst sy) (simp only: 2(2))
    also have "\<dots> = 2 powi (int p - 1)"
      by (simp flip: powi_diff)
    also have "\<dots> = of_int (2 ^ nat (int p - 1))"
      using assms(2) by (intro powi_nat) simp
    finally have "?y / scale p emin ?y = of_int (2 ^ nat (int p - 1))" .
    moreover have "0 < ?y" unfolding 2(2) by (rule powi_pos)
    ultimately show ?thesis by (rule rnd_fix [rotated])
  next
    case 3
    have ypos: "0 < ?y" unfolding y using 3(1) s by simp
    have up: "expo ?y \<le> ?E"
    proof -
      have "2 powi (expo ?y) \<le> ?y" by (rule expo_bounds(1) [OF ypos])
      also have "\<dots> < 2 powi (?E + 1)" by (rule 3(2))
      finally have "expo ?y < ?E + 1" by (rule powi_less_cancel)
      then show ?thesis by simp
    qed
    have "max (expo ?y) emin = ?E"
    proof -
      consider "emin \<le> expo x" | "expo x < emin" by linarith
      then show ?thesis
      proof cases
        case 1
        have "2 powi (expo x) \<le> ?y" by (rule rnd_ge_pow [OF assms(1) 1 assms(2)])
        then have "expo (2 powi (expo x)) \<le> expo ?y" by (intro expo_mono) simp_all
        then have "expo x \<le> expo ?y" by (simp only: expo_powi)
        then show ?thesis using up 1 by simp
      next
        case 2
        then show ?thesis using up by simp
      qed
    qed
    then have sy: "scale p emin ?y = ?s" by (simp add: scale_def)
    have "?y / scale p emin ?y = of_int ?m" using s by (subst sy) (simp add: y)
    then show ?thesis using ypos by (rule rnd_fix [rotated])
  qed
qed

lemma rnd_idem:
  assumes "1 \<le> p"
  shows "rnd p emin (rnd p emin x) = rnd p emin x"
proof -
  consider "x = 0" | "0 < x" | "x < 0" by linarith
  then show ?thesis
  proof cases
    case 1
    then show ?thesis by (simp add: rnd_0)
  next
    case 2
    then show ?thesis by (rule rnd_pos_idem [OF _ assms])
  next
    case 3
    then have "0 < - x" by simp
    then have "rnd p emin (rnd p emin (- x)) = rnd p emin (- x)" by (rule rnd_pos_idem [OF _ assms])
    then show ?thesis by (simp add: rnd_minus)
  qed
qed

lemma rnd_pos_mono:
  assumes "0 < x" "x \<le> y" "1 \<le> p"
  shows "rnd p emin x \<le> rnd p emin y"
proof -
  have y: "0 < y" using assms by linarith
  let ?Ex = "max (expo x) emin"
  let ?Ey = "max (expo y) emin"
  have le: "?Ex \<le> ?Ey" using expo_mono [OF assms(1,2)] by simp
  consider "?Ex = ?Ey" | "?Ex < ?Ey" using le by linarith
  then show ?thesis
  proof cases
    case 1
    then have s: "scale p emin x = scale p emin y" by (simp add: scale_def)
    have "x / scale p emin y \<le> y / scale p emin y"
      using assms(2) scale_pos [of p emin y] by (simp add: divide_right_mono)
    then have "round_even (x / scale p emin y) \<le> round_even (y / scale p emin y)"
      by (rule round_even_mono)
    then have "(of_int (round_even (x / scale p emin y)) :: rat) \<le> of_int (round_even (y / scale p emin y))"
      by (simp only: of_int_le_iff)
    then show ?thesis
      unfolding rnd_pos_eq [OF assms(1)] rnd_pos_eq [OF y] s
      using scale_pos [of p emin y] by (intro mult_right_mono) simp_all
  next
    case 2
    then have n: "emin \<le> expo y" "?Ey = expo y" by linarith+
    have "rnd p emin x \<le> 2 powi (?Ex + 1)" by (rule rnd_le_pow [OF assms(1)])
    also have "\<dots> \<le> 2 powi (expo y)" using 2 n(2) by (intro powi_mono) linarith
    also have "\<dots> \<le> rnd p emin y" by (rule rnd_ge_pow [OF y n(1) assms(3)])
    finally show ?thesis .
  qed
qed

lemma rnd_mono:
  assumes "x \<le> y" "1 \<le> p"
  shows "rnd p emin x \<le> rnd p emin y"
proof -
  consider "0 < x" | "x \<le> 0" "0 \<le> y" | "y < 0" by linarith
  then show ?thesis
  proof cases
    case 1
    then show ?thesis using assms by (rule rnd_pos_mono)
  next
    case 2
    have "0 \<le> rnd p emin (- x)" using 2(1) by (intro rnd_nonneg) simp
    then have "rnd p emin x \<le> 0" by (simp add: rnd_minus)
    also have "0 \<le> rnd p emin y" using 2(2) by (rule rnd_nonneg)
    finally show ?thesis .
  next
    case 3
    have "rnd p emin (- y) \<le> rnd p emin (- x)"
      using 3 assms by (intro rnd_pos_mono) simp_all
    then show ?thesis by (simp add: rnd_minus)
  qed
qed

lemma rnd_powi:
  assumes "1 \<le> p" "emin \<le> e"
  shows "rnd p emin (2 powi e) = 2 powi e"
proof -
  have "(2::rat) powi e / scale p emin (2 powi e) = 2 powi (int p - 1)"
    using assms(2) by (simp add: scale_def expo_powi max_def flip: powi_diff)
  also have "\<dots> = of_int (2 ^ nat (int p - 1))" using assms(1) by (intro powi_nat) simp
  finally show ?thesis by (intro rnd_fix) simp_all
qed

text \<open>Every representable number is a multiple of the smallest subnormal.\<close>

lemma rnd_grid:
  assumes "rnd p emin x = x"
  shows "\<exists>k. x = of_int k * 2 powi (emin - int p + 1)"
proof -
  have pos: "\<exists>k. y = of_int k * 2 powi (emin - int p + 1)" if y: "0 < y" "rnd p emin y = y" for y
  proof -
    let ?E = "max (expo y) emin"
    let ?m = "round_even (y / scale p emin y)"
    have "?E - int p + 1 = (?E - emin) + (emin - int p + 1)" by simp
    then have "scale p emin y = 2 powi (?E - emin) * 2 powi (emin - int p + 1)"
      by (simp only: scale_def powi_add)
    also have "2 powi (?E - emin) = (of_int (2 ^ nat (?E - emin)) :: rat)"
      by (intro powi_nat) simp
    finally have "y = of_int ?m * (of_int (2 ^ nat (?E - emin)) * 2 powi (emin - int p + 1))"
      using rnd_pos_eq [OF y(1), of p emin] y(2) by simp
    then have "y = of_int (?m * 2 ^ nat (?E - emin)) * 2 powi (emin - int p + 1)"
      by (simp only: of_int_mult mult.assoc)
    then show ?thesis by blast
  qed
  consider "x = 0" | "0 < x" | "x < 0" by linarith
  then show ?thesis
  proof cases
    case 1
    then have "x = of_int 0 * 2 powi (emin - int p + 1)" by simp
    then show ?thesis by blast
  next
    case 2
    then show ?thesis using pos assms by blast
  next
    case 3
    have "rnd p emin (- x) = - x" using assms by (simp add: rnd_minus)
    then obtain k where "- x = of_int k * 2 powi (emin - int p + 1)"
      using pos [of "- x"] 3 by auto
    then have "x = of_int (- k) * 2 powi (emin - int p + 1)" by simp
    then show ?thesis by blast
  qed
qed

text \<open>A multiple of the smallest subnormal below the normal range is representable.\<close>

lemma rnd_subnormal_fix:
  assumes "x = of_int k * 2 powi (emin - int p + 1)" "0 \<le> x" "x < 2 powi (emin + 1)"
  shows "rnd p emin x = x"
proof -
  consider "x = 0" | "0 < x" using assms(2) by linarith
  then show ?thesis
  proof cases
    case 1
    then show ?thesis by (simp add: rnd_0)
  next
    case 2
    have "2 powi (expo x) \<le> x" by (rule expo_bounds(1) [OF 2])
    also have "x < 2 powi (emin + 1)" by fact
    finally have "expo x < emin + 1" by (rule powi_less_cancel)
    then have "max (expo x) emin = emin" by simp
    then have s: "scale p emin x = 2 powi (emin - int p + 1)" by (simp add: scale_def)
    have "x / scale p emin x = of_int k" unfolding s using assms(1) by simp
    then show ?thesis by (rule rnd_fix [OF 2])
  qed
qed

lemma powi_split: "a = b + c \<Longrightarrow> (2::rat) powi a = 2 powi b * 2 powi c"
  by (simp add: powi_add)

lemma rnd_finer:
  assumes "rnd p1 emin1 x = x" "p1 \<le> p2" "emin2 \<le> emin1"
  shows "rnd p2 emin2 x = x"
proof -
  have pos: "rnd p2 emin2 y = y" if y: "0 < y" "rnd p1 emin1 y = y" for y
  proof -
    let ?m = "round_even (y / scale p1 emin1 y)"
    let ?D = "(max (expo y) emin1 - int p1 + 1) - (max (expo y) emin2 - int p2 + 1)"
    have D: "0 \<le> ?D" using assms(2,3) by linarith
    have "scale p1 emin1 y = 2 powi ?D * scale p2 emin2 y"
      unfolding scale_def by (rule powi_split) simp
    also have "2 powi ?D = (of_int (2 ^ nat ?D) :: rat)" using D by (rule powi_nat)
    finally have s: "scale p1 emin1 y = of_int (2 ^ nat ?D) * scale p2 emin2 y" .
    have "y = of_int ?m * scale p1 emin1 y" using rnd_pos_eq [OF y(1), of p1 emin1] y(2) by simp
    then have "y = of_int (?m * 2 ^ nat ?D) * scale p2 emin2 y"
      by (simp only: s of_int_mult mult.assoc)
    then have "y / scale p2 emin2 y = of_int (?m * 2 ^ nat ?D)"
      using scale_pos [of p2 emin2 y] by (simp add: field_simps)
    then show ?thesis by (rule rnd_fix [OF y(1)])
  qed
  consider "x = 0" | "0 < x" | "x < 0" by linarith
  then show ?thesis
  proof cases
    case 1
    then show ?thesis by (simp add: rnd_0)
  next
    case 2
    then show ?thesis using pos assms(1) by blast
  next
    case 3
    have "rnd p1 emin1 (- x) = - x" using assms(1) by (simp add: rnd_minus)
    then have "rnd p2 emin2 (- x) = - x" using pos [of "- x"] 3 by simp
    then show ?thesis by (simp add: rnd_minus)
  qed
qed

lemma powi_neg_le_half: "1 \<le> p \<Longrightarrow> (2::rat) powi (- int p) \<le> 1 / 2"
proof -
  assume "1 \<le> p"
  then have "(2::rat) powi (- int p) \<le> 2 powi (- 1)" by (intro powi_mono) simp
  then show ?thesis by simp
qed

lemma rnd_frac_le:
  assumes "rnd p emin x = x" "0 \<le> x" "1 \<le> p" "emin \<le> - 1"
  shows "x - of_int \<lfloor>x\<rfloor> \<le> 1 - 2 powi (- int p)"
proof -
  let ?u = "(2::rat) powi (- int p)"
  have u: "0 < ?u" "?u \<le> 1 / 2" using powi_neg_le_half [OF assms(3)] by simp_all
  consider "x = 0" | "0 < x" "x < 1" | "1 \<le> x" using assms(2) by linarith
  then show ?thesis
  proof cases
    case 1
    then show ?thesis using u by simp
  next
    case 2
    have fl: "\<lfloor>x\<rfloor> = 0" using 2 by (simp add: floor_eq_iff)
    have "2 powi (expo x) \<le> x" by (rule expo_bounds(1) [OF 2(1)])
    also have "x < 2 powi 0" using 2(2) by simp
    finally have e: "expo x < 0" by (rule powi_less_cancel)
    consider "expo x \<le> - 2" | "expo x = - 1" using e by linarith
    then have "x \<le> 1 - ?u"
    proof cases
      case 1
      have "x < 2 powi (expo x + 1)" by (rule expo_bounds(2) [OF 2(1)])
      also have "\<dots> \<le> 2 powi (- 1)" using 1 by (intro powi_mono) linarith
      finally have "x < 1 / 2" by simp
      then show ?thesis using u by linarith
    next
      case 2
      have m: "max (expo x) emin = - 1" using 2 assms(4) by simp
      have s: "scale p emin x = ?u" by (simp add: scale_def m)
      define k where "k = round_even (x / scale p emin x)"
      have x: "x = of_int k * ?u"
        using rnd_pos_eq [OF \<open>0 < x\<close>, of p emin] assms(1) by (simp add: k_def s)
      have one: "(2::rat) ^ p * ?u = 1"
      proof -
        have "(2::rat) powi (int p) * 2 powi (- int p) = 2 powi (int p + (- int p))"
          by (simp only: powi_add)
        then show ?thesis by simp
      qed
      have "of_int k * ?u < 2 ^ p * ?u" using \<open>x < 1\<close> x one by simp
      then have "(of_int k :: rat) < 2 ^ p" using u(1) by (simp only: mult_less_cancel_right_pos)
      then have "(of_int k :: rat) < of_int (2 ^ p)" by simp
      then have "k < 2 ^ p" by (simp only: of_int_less_iff)
      then have "k \<le> 2 ^ p - 1" by simp
      then have "(of_int k :: rat) \<le> of_int (2 ^ p - 1)" by (simp only: of_int_le_iff)
      then have "of_int k * ?u \<le> of_int (2 ^ p - 1) * ?u"
        using u(1) by (intro mult_right_mono) simp_all
      also have "\<dots> = 2 ^ p * ?u - ?u" by (simp add: algebra_simps)
      finally show ?thesis using x one by simp
    qed
    then show ?thesis by (simp add: fl)
  next
    case 3
    have x0: "0 < x" using 3 by simp
    have "2 powi 0 \<le> x" using 3 by simp
    then have e: "0 \<le> expo x" by (rule expo_ge)
    have m: "max (expo x) emin = expo x" using e assms(4) by simp
    define g where "g = (2::rat) powi (1 - int p)"
    have g: "0 < g" by (simp add: g_def)
    define k where "k = round_even (x / scale p emin x)"
    have "scale p emin x = 2 powi (expo x) * g"
      unfolding scale_def m g_def by (rule powi_split) simp
    also have "2 powi (expo x) = (of_int (2 ^ nat (expo x)) :: rat)" using e by (rule powi_nat)
    finally have s: "scale p emin x = of_int (2 ^ nat (expo x)) * g" .
    have "x = of_int k * scale p emin x"
      using rnd_pos_eq [OF x0, of p emin] assms(1) by (simp add: k_def)
    then have x: "x = of_int (k * 2 ^ nat (expo x)) * g"
      by (simp only: s of_int_mult mult.assoc)
    have one: "of_int (2 ^ (p - 1)) * g = 1"
      unfolding g_def using pow_scale' [OF assms(3), of 0] by simp
    define J where "J = k * 2 ^ nat (expo x) - \<lfloor>x\<rfloor> * 2 ^ (p - 1)"
    have "x - of_int \<lfloor>x\<rfloor> = of_int (k * 2 ^ nat (expo x)) * g - of_int \<lfloor>x\<rfloor> * (of_int (2 ^ (p - 1)) * g)"
      using x one by simp
    also have "\<dots> = of_int J * g"
      unfolding J_def by (simp only: of_int_diff of_int_mult algebra_simps)
    finally have fr: "x - of_int \<lfloor>x\<rfloor> = of_int J * g" .
    have "x - of_int \<lfloor>x\<rfloor> < 1" by linarith
    then have "of_int J * g < of_int (2 ^ (p - 1)) * g" using fr one by simp
    then have "(of_int J :: rat) < of_int (2 ^ (p - 1))" using g by (simp only: mult_less_cancel_right_pos)
    then have "J < 2 ^ (p - 1)" by (simp only: of_int_less_iff)
    then have "J \<le> 2 ^ (p - 1) - 1" by simp
    then have "(of_int J :: rat) \<le> of_int (2 ^ (p - 1) - 1)" by (simp only: of_int_le_iff)
    then have "of_int J * g \<le> of_int (2 ^ (p - 1) - 1) * g"
      using g by (intro mult_right_mono) simp_all
    also have "\<dots> = of_int (2 ^ (p - 1)) * g - g" by (simp add: algebra_simps)
    also have "\<dots> = 1 - g" using one by simp
    also have "\<dots> \<le> 1 - ?u"
    proof -
      have "?u \<le> g" unfolding g_def by (intro powi_mono) simp
      then show ?thesis by simp
    qed
    finally show ?thesis using fr by simp
  qed
qed

lemma interp_step_le:
  assumes a: "rnd p emin a = a" and b: "rnd p emin b = b" and ab: "a \<le> b"
    and t: "0 \<le> t" "t \<le> 1 - 2 powi (- int p)" and p: "1 \<le> p"
  shows "0 \<le> rnd p emin (rnd p emin (b - a) * t)"
    and "rnd p emin (rnd p emin (b - a) * t) \<le> b - a"
proof -
  let ?u = "(2::rat) powi (- int p)"
  have u: "0 < ?u" by simp
  define D where "D = b - a"
  define d where "d = rnd p emin D"
  define q where "q = rnd p emin (d * t)"
  have D0: "0 \<le> D" using ab by (simp add: D_def)
  have d0: "0 \<le> d" unfolding d_def using D0 by (rule rnd_nonneg)
  have dd: "rnd p emin d = d" unfolding d_def by (rule rnd_idem [OF p])
  have t1: "t \<le> 1" using t(2) u by linarith
  have q0: "0 \<le> q" unfolding q_def using d0 t(1) by (intro rnd_nonneg) simp
  have "d * t \<le> d * 1" using d0 t1 by (intro mult_left_mono)
  then have "rnd p emin (d * t) \<le> rnd p emin d" using p by (intro rnd_mono) simp_all
  then have qd: "q \<le> d" by (simp add: q_def dd)
  have qq: "rnd p emin q = q" unfolding q_def by (rule rnd_idem [OF p])
  have "q \<le> D"
  proof (rule ccontr)
    assume "\<not> q \<le> D"
    then have lt: "D < q" by simp
    have "rnd p emin D \<le> rnd p emin q" using lt p by (intro rnd_mono) simp_all
    then have "d \<le> q" by (simp add: d_def qq)
    then have eq: "q = d" using qd by simp
    have Dd: "D < d" using lt eq by simp
    have dpos: "0 < d" using D0 Dd by linarith
    consider "2 powi emin \<le> d * t" | "d * t < 2 powi emin" by linarith
    then show False
    proof cases
      case 1
      have "\<bar>rnd p emin (d * t) - d * t\<bar> \<le> d * t * ?u"
        using rnd_rel_err_pos [OF 1, of p] .
      then have "d - d * t \<le> d * t * ?u" using eq by (simp add: q_def)
      moreover have "d * t \<le> d * (1 - ?u)" using t(2) d0 by (intro mult_left_mono)
      then have "d * t * ?u \<le> d * (1 - ?u) * ?u" using u by (intro mult_right_mono) simp_all
      moreover have "d * ?u \<le> d - d * t"
      proof -
        have "d * ?u \<le> d * (1 - t)" using t(2) d0 by (intro mult_left_mono) simp_all
        then show ?thesis by (simp add: algebra_simps)
      qed
      ultimately have "d * ?u \<le> d * (1 - ?u) * ?u" by linarith
      moreover have "d * (1 - ?u) * ?u = d * ?u - d * ?u * ?u" by (simp add: algebra_simps)
      moreover have "0 < d * ?u * ?u" using dpos u by simp
      ultimately show False by linarith
    next
      case 2
      have "rnd p emin (d * t) \<le> rnd p emin (2 powi emin)"
        using 2 p by (intro rnd_mono) simp_all
      then have "d \<le> 2 powi emin" using eq by (simp add: q_def rnd_powi [OF p])
      also have "\<dots> < 2 powi (emin + 1)" by (intro powi_strict_mono) simp
      finally have small: "D < 2 powi (emin + 1)" using Dd by linarith
      obtain ka kb where "a = of_int ka * 2 powi (emin - int p + 1)"
        "b = of_int kb * 2 powi (emin - int p + 1)"
        using rnd_grid [OF a] rnd_grid [OF b] by blast
      then have Dk: "D = of_int (kb - ka) * 2 powi (emin - int p + 1)"
        by (simp add: D_def algebra_simps)
      have "rnd p emin D = D" by (rule rnd_subnormal_fix [OF Dk D0 small])
      then show False using Dd by (simp add: d_def)
    qed
  qed
  then show "0 \<le> rnd p emin (rnd p emin (b - a) * t)"
    and "rnd p emin (rnd p emin (b - a) * t) \<le> b - a"
    using q0 by (simp_all add: q_def d_def D_def)
qed

lemma interp_between:
  assumes a: "rnd p emin a = a" and b: "rnd p emin b = b"
    and t: "0 \<le> t" "t \<le> 1 - 2 powi (- int p)" and p: "1 \<le> p"
  shows "min a b \<le> rnd p emin (a + rnd p emin (rnd p emin (b - a) * t))"
    and "rnd p emin (a + rnd p emin (rnd p emin (b - a) * t)) \<le> max a b"
proof -
  let ?q = "rnd p emin (rnd p emin (b - a) * t)"
  have "a \<le> a + ?q \<and> a + ?q \<le> b \<or> b \<le> a + ?q \<and> a + ?q \<le> a"
  proof -
    consider "a \<le> b" | "b \<le> a" by linarith
    then show ?thesis
    proof cases
      case 1
      show ?thesis using interp_step_le [OF a b 1 t p] by simp
    next
      case 2
      have "rnd p emin (b - a) * t = - (rnd p emin (a - b) * t)"
        using rnd_minus [of p emin "a - b"] by simp
      then have "?q = - rnd p emin (rnd p emin (a - b) * t)"
        by (simp only: rnd_minus)
      then show ?thesis using interp_step_le [OF b a 2 t p] by simp
    qed
  qed
  then have "min a b \<le> a + ?q" "a + ?q \<le> max a b" by auto
  then have "rnd p emin (min a b) \<le> rnd p emin (a + ?q)" "rnd p emin (a + ?q) \<le> rnd p emin (max a b)"
    using p by (simp_all add: rnd_mono)
  moreover have "rnd p emin (min a b) = min a b" "rnd p emin (max a b) = max a b"
    using a b by (simp_all add: min_def max_def)
  ultimately show "min a b \<le> rnd p emin (a + ?q)" "rnd p emin (a + ?q) \<le> max a b"
    by simp_all
qed

section \<open>Properties of the resampler\<close>

lemma f64_facts:
  "f64 0 = 0" "f64 (- x) = - f64 x" "0 \<le> x \<Longrightarrow> 0 \<le> f64 x"
  "x \<le> y \<Longrightarrow> f64 x \<le> f64 y" "f64 (f64 x) = f64 x"
  by (simp_all add: f64_def rnd_0 rnd_minus rnd_nonneg rnd_mono rnd_idem)

lemma f32_facts:
  "f32 0 = 0" "f32 (- x) = - f32 x" "0 \<le> x \<Longrightarrow> 0 \<le> f32 x"
  "x \<le> y \<Longrightarrow> f32 x \<le> f32 y" "f32 (f32 x) = f32 x"
  by (simp_all add: f32_def rnd_0 rnd_minus rnd_nonneg rnd_mono rnd_idem)

lemma f64_rel_err:
  assumes "2 powi (- 1022) \<le> x"
  shows "f64 x \<le> x + x * 2 powi (- 53)" "x - x * 2 powi (- 53) \<le> f64 x"
proof -
  have "\<bar>f64 x - x\<bar> \<le> x * 2 powi (- int 53)"
    using rnd_rel_err_pos [OF assms, of 53] unfolding f64_def .
  moreover have "int 53 = 53" by simp
  ultimately have "\<bar>f64 x - x\<bar> \<le> x * 2 powi (- 53)" by (simp only:)
  then show "f64 x \<le> x + x * 2 powi (- 53)" "x - x * 2 powi (- 53) \<le> f64 x"
    by linarith+
qed

lemma f64_min_normal: "f64 (2 powi (- 1022)) = 2 powi (- 1022)"
  unfolding f64_def by (rule rnd_powi) simp_all

lemma tiny: "(2::rat) powi (- 1022) < 1 / 2"
proof -
  have "(2::rat) powi (- 1022) < 2 powi (- 1)" by (intro powi_strict_mono) simp
  moreover have "(2::rat) powi (- 1) = 1 / 2" by simp
  ultimately show ?thesis by (simp only:)
qed

lemma f64_below_normal:
  assumes "x < 2 powi (- 1022)"
  shows "f64 x < 1 / 2"
proof -
  have "x \<le> 2 powi (- 1022)" using assms by (rule less_imp_le)
  then have "f64 x \<le> f64 (2 powi (- 1022))" by (rule f64_facts(4))
  then have "f64 x \<le> 2 powi (- 1022)" by (simp only: f64_min_normal)
  then show ?thesis using tiny by linarith
qed

lemma Math_round_bounds:
  "of_int (Math_round q) \<le> q + 1 / 2" "q - 1 / 2 < of_int (Math_round q)"
  unfolding Math_round_def by linarith+

lemma u53_facts:
  "0 < (2::rat) powi (- 53)" "(2::rat) powi (- 53) \<le> 1 / 4" "2 ^ 50 * (8 * (2::rat) powi (- 53)) = 1"
proof -
  show "0 < (2::rat) powi (- 53)" by (rule powi_pos)
  have "(2::rat) powi (- 53) \<le> 2 powi (- 2)" by (intro powi_mono) simp
  moreover have "(2::rat) powi (- 2) = 1 / 4" by (simp add: power_int_minus)
  ultimately show "(2::rat) powi (- 53) \<le> 1 / 4" by (simp only:)
  have "(2::rat) powi 50 * (2 powi 3 * 2 powi (- 53)) = 2 powi (50 + (3 + (- 53)))"
    by (simp only: powi_add)
  then show "2 ^ 50 * (8 * (2::rat) powi (- 53)) = 1" by simp
qed

lemma index_below_length:
  assumes ratio: "0 < ratio" and n: "1 \<le> n"
    and i: "int i < Math_round (f64 (of_nat n / ratio))"
    and lim: "Math_round (f64 (of_nat n / ratio)) < 2 ^ 50"
  shows "f64 (of_nat i * ratio) < of_nat n"
proof -
  define u where "u = (2::rat) powi (- 53)"
  have u: "0 < u" "u \<le> 1 / 4" "2 ^ 50 * (8 * u) = 1"
    unfolding u_def by (rule u53_facts)+
  define m where "m = (of_nat n :: rat)"
  define x where "x = m / ratio"
  define q where "q = f64 x"
  define y where "y = of_nat i * ratio"
  define N where "N = Math_round q"
  have n1: "1 \<le> m" using n by (simp add: m_def)
  have x0: "0 < x" unfolding x_def using ratio n1 by simp
  have xr: "x * ratio = m" unfolding x_def using ratio by simp
  have N: "of_int N \<le> q + 1 / 2" "q - 1 / 2 < of_int N"
    unfolding N_def by (rule Math_round_bounds)+
  have "int i + 1 \<le> N" using i unfolding N_def q_def x_def m_def by linarith
  then have "(of_int (int i + 1) :: rat) \<le> of_int N" by (simp only: of_int_le_iff)
  then have iN: "of_nat i + 1 \<le> (of_int N :: rat)" by simp
  have iq: "of_nat i \<le> q - 1 / 2" using iN N(1) by linarith
  have i0: "(0::rat) \<le> of_nat i" by simp
  have qhalf: "1 / 2 \<le> q" using iq i0 by linarith
  have xn: "2 powi (- 1022) \<le> x"
  proof (rule ccontr)
    assume "\<not> 2 powi (- 1022) \<le> x"
    then have "x < 2 powi (- 1022)" by simp
    then have "f64 x < 1 / 2" by (rule f64_below_normal)
    then show False using qhalf unfolding q_def by linarith
  qed
  have qx: "q \<le> x + x * u" "x - x * u \<le> q"
    unfolding q_def u_def using f64_rel_err [OF xn] by simp_all
  have "N + 1 \<le> 2 ^ 50" using lim unfolding N_def q_def x_def m_def by linarith
  then have "(of_int (N + 1) :: rat) \<le> of_int (2 ^ 50)" by (simp only: of_int_le_iff)
  then have "(of_int N :: rat) + 1 \<le> 2 ^ 50" by simp
  then have "q < 2 ^ 50" using N(2) by linarith
  then have "x - x * u < 2 ^ 50" using qx(2) by linarith
  then have "(x - x * u) * ratio < 2 ^ 50 * ratio"
    using ratio by (simp only: mult_strict_right_mono)
  moreover have "(x - x * u) * ratio = m - m * u"
    using xr by (simp add: algebra_simps)
  ultimately have "m - m * u < 2 ^ 50 * ratio" by simp
  then have "(m - m * u) * (8 * u) < 2 ^ 50 * ratio * (8 * u)"
    using u(1) by (intro mult_strict_right_mono) simp_all
  moreover have "2 ^ 50 * ratio * (8 * u) = ratio * (2 ^ 50 * (8 * u))" by (simp only: mult_ac)
  ultimately have "(m - m * u) * (8 * u) < ratio * (2 ^ 50 * (8 * u))" by (simp only:)
  then have "(m - m * u) * (8 * u) < ratio" by (simp only: u(3) mult_1_right)
  then have rlow: "(m - m * u) * (4 * u) < ratio / 2" by simp
  have "y \<le> (q - 1 / 2) * ratio"
    unfolding y_def using iq ratio by (intro mult_right_mono) simp_all
  also have "\<dots> \<le> (x + x * u - 1 / 2) * ratio"
    using qx(1) ratio by (intro mult_right_mono) simp_all
  also have "\<dots> = m + m * u - ratio / 2"
    using xr by (simp add: algebra_simps)
  also have "\<dots> < m + m * u - (m - m * u) * (4 * u)" using rlow by linarith
  also have "\<dots> = m * (1 - 3 * u + 4 * u * u)" by (simp add: algebra_simps)
  finally have yb: "y < m * (1 - 3 * u + 4 * u * u)" .
  have poly: "(1 - 3 * u + 4 * u * u) * (1 + u) \<le> 1"
  proof -
    have "u * u \<le> u * (1 / 4)" using u(1,2) by (intro mult_left_mono) simp_all
    moreover have "u * u * u \<le> u * u * (1 / 4)" using u(1,2) by (intro mult_left_mono) simp_all
    moreover have "(1 - 3 * u + 4 * u * u) * (1 + u) = 1 - 2 * u + u * u + 4 * (u * u * u)"
      by (simp add: algebra_simps)
    ultimately show ?thesis using u(1) by linarith
  qed
  consider "y < 2 powi (- 1022)" | "2 powi (- 1022) \<le> y" by linarith
  then have "f64 y < m"
  proof cases
    case 1
    then have "f64 y < 1 / 2" by (rule f64_below_normal)
    then show ?thesis using n1 by linarith
  next
    case 2
    have "f64 y \<le> y + y * u" unfolding u_def by (rule f64_rel_err(1) [OF 2])
    also have "\<dots> = y * (1 + u)" by (simp add: algebra_simps)
    also have "\<dots> < m * (1 - 3 * u + 4 * u * u) * (1 + u)"
      using yb u(1) by (intro mult_strict_right_mono) simp_all
    also have "\<dots> = m * ((1 - 3 * u + 4 * u * u) * (1 + u))"
      by (simp only: mult.assoc)
    also have "\<dots> \<le> m * 1"
      using poly n1 by (intro mult_left_mono) simp_all
    finally show ?thesis by simp
  qed
  then show ?thesis by (simp add: y_def m_def)
qed

lemma in_bounds:
  assumes "0 < ratio" "buffer \<noteq> []"
    "int i < Math_round (f64 (of_nat (length buffer) / ratio))"
    "Math_round (f64 (of_nat (length buffer) / ratio)) < 2 ^ 50"
  shows "0 \<le> indexFloor ratio i" "indexFloor ratio i \<le> int (length buffer) - 1"
    "0 \<le> indexCeil buffer ratio i" "indexCeil buffer ratio i \<le> int (length buffer) - 1"
    "indexFloor ratio i \<le> indexCeil buffer ratio i"
proof -
  let ?x = "f64 (of_nat i * ratio)"
  have len: "1 \<le> length buffer" using assms(2) by (cases buffer) simp_all
  have len': "0 \<le> int (length buffer) - 1" using len by linarith
  have x0: "0 \<le> ?x" using assms(1) by (intro f64_facts(3)) simp
  have "?x < of_nat (length buffer)"
    by (rule index_below_length [OF assms(1) len assms(3,4)])
  then have xn: "?x < of_int (int (length buffer))" by simp
  show f0: "0 \<le> indexFloor ratio i" using x0 by (simp add: indexFloor_def)
  have "\<lfloor>?x\<rfloor> < int (length buffer)" using xn by (simp only: floor_less_iff)
  then show f1: "indexFloor ratio i \<le> int (length buffer) - 1" by (simp add: indexFloor_def)
  have c0: "0 \<le> \<lceil>?x\<rceil>" using x0 by (simp add: le_ceiling_iff)
  show "0 \<le> indexCeil buffer ratio i" using c0 len' unfolding indexCeil_def by (rule min.boundedI)
  show "indexCeil buffer ratio i \<le> int (length buffer) - 1" by (simp add: indexCeil_def)
  have "\<lfloor>?x\<rfloor> \<le> \<lceil>?x\<rceil>" by (rule floor_le_ceiling)
  then show "indexFloor ratio i \<le> indexCeil buffer ratio i"
    using f1 by (simp add: indexFloor_def indexCeil_def)
qed

lemma one_minus_u: "f64 (1 - 2 powi (- 53)) = 1 - 2 powi (- 53)"
proof -
  have "(1::rat) - 2 powi (- 53) = 1 - 1 / 2 ^ 53" by (simp add: power_int_minus field_simps)
  moreover have "f64 (1 - 1 / 2 ^ 53) = 1 - 1 / 2 ^ 53" by code_simp
  ultimately show ?thesis by (simp only:)
qed

lemma decimal_range:
  assumes "0 \<le> ratio"
  shows "0 \<le> f64 (f64 (of_nat i * ratio) - of_int (indexFloor ratio i))"
    "f64 (f64 (of_nat i * ratio) - of_int (indexFloor ratio i)) \<le> 1 - 2 powi (- int 53)"
proof -
  let ?x = "f64 (of_nat i * ratio)"
  have x0: "0 \<le> ?x" using assms by (intro f64_facts(3)) simp
  have xx: "rnd 53 (- 1022) ?x = ?x" using f64_facts(5) [of "of_nat i * ratio"] by (simp add: f64_def)
  have fr: "?x - of_int \<lfloor>?x\<rfloor> \<le> 1 - 2 powi (- int 53)"
    by (rule rnd_frac_le [OF xx x0]) simp_all
  have fr0: "0 \<le> ?x - of_int \<lfloor>?x\<rfloor>" by linarith
  show "0 \<le> f64 (?x - of_int (indexFloor ratio i))"
    unfolding indexFloor_def using fr0 by (rule f64_facts(3))
  have "f64 (?x - of_int \<lfloor>?x\<rfloor>) \<le> f64 (1 - 2 powi (- int 53))"
    using fr by (rule f64_facts(4))
  then show "f64 (?x - of_int (indexFloor ratio i)) \<le> 1 - 2 powi (- int 53)"
    unfolding indexFloor_def using one_minus_u by simp
qed

lemma f32_is_f64:
  assumes "f32 x = x"
  shows "f64 x = x"
proof -
  have "rnd 24 (- 126) x = x" using assms by (simp only: f32_def)
  moreover have "(24::nat) \<le> 53" "(- 1022::int) \<le> - 126" by simp_all
  ultimately have "rnd 53 (- 1022) x = x" by (rule rnd_finer)
  then show ?thesis by (simp only: f64_def)
qed

lemma interpolate_between:
  assumes "f32 val1 = val1" "f32 val2 = val2" "0 \<le> t" "t \<le> 1 - 2 powi (- int 53)"
  shows "min val1 val2 \<le> f32 (f64 (val1 + f64 (f64 (val2 - val1) * t)))"
    "f32 (f64 (val1 + f64 (f64 (val2 - val1) * t))) \<le> max val1 val2"
proof -
  let ?y = "f64 (val1 + f64 (f64 (val2 - val1) * t))"
  have a: "rnd 53 (- 1022) val1 = val1" "rnd 53 (- 1022) val2 = val2"
    using f32_is_f64 assms(1,2) by (simp_all add: f64_def)
  have b: "min val1 val2 \<le> ?y" "?y \<le> max val1 val2"
    unfolding f64_def using interp_between [OF a assms(3,4)] by simp_all
  have m: "f32 (min val1 val2) = min val1 val2" "f32 (max val1 val2) = max val1 val2"
    using assms(1,2) by (simp_all add: min_def max_def)
  have "f32 (min val1 val2) \<le> f32 ?y" using b(1) by (rule f32_facts(4))
  then show "min val1 val2 \<le> f32 ?y" by (simp only: m)
  have "f32 ?y \<le> f32 (max val1 val2)" using b(2) by (rule f32_facts(4))
  then show "f32 ?y \<le> max val1 val2" by (simp only: m)
qed

lemma resampleAt_between:
  assumes "0 < ratio" "buffer \<noteq> []"
    "int i < Math_round (f64 (of_nat (length buffer) / ratio))"
    "Math_round (f64 (of_nat (length buffer) / ratio)) < 2 ^ 50"
    "\<forall>x \<in> set buffer. f32 x = x"
  shows "\<exists>val1 val2 y. readSample buffer (indexFloor ratio i) = Some val1
    \<and> readSample buffer (indexCeil buffer ratio i) = Some val2
    \<and> resampleAt buffer ratio i = Some y \<and> min val1 val2 \<le> y \<and> y \<le> max val1 val2"
proof -
  note b = in_bounds [OF assms(1-4)]
  define t where "t = f64 (f64 (of_nat i * ratio) - of_int (indexFloor ratio i))"
  have t: "0 \<le> t" "t \<le> 1 - 2 powi (- int 53)"
    unfolding t_def using decimal_range [of ratio i] assms(1) by simp_all
  define val1 where "val1 = buffer ! nat (indexFloor ratio i)"
  define val2 where "val2 = buffer ! nat (indexCeil buffer ratio i)"
  have i1: "nat (indexFloor ratio i) < length buffer" using b(1,2) by linarith
  have i2: "nat (indexCeil buffer ratio i) < length buffer" using b(3,4) by linarith
  have v: "f32 val1 = val1" "f32 val2 = val2"
    unfolding val1_def val2_def using assms(5) i1 i2 by (simp_all only: nth_mem)
  have r1: "readSample buffer (indexFloor ratio i) = Some val1"
    using b(1,2) by (simp add: readSample_def val1_def)
  have r2: "readSample buffer (indexCeil buffer ratio i) = Some val2"
    using b(3,4) by (simp add: readSample_def val2_def)
  have y: "resampleAt buffer ratio i = Some (f32 (f64 (val1 + f64 (f64 (val2 - val1) * t))))"
    by (simp add: resampleAt_def r1 r2 t_def)
  show ?thesis using r1 r2 y interpolate_between [OF v t] by blast
qed

lemma Math_round_0: "Math_round 0 = 0"
  by (simp add: Math_round_def floor_eq_iff)

lemma Math_round_mono: "x \<le> y \<Longrightarrow> Math_round x \<le> Math_round y"
  unfolding Math_round_def by (intro floor_mono) simp

lemma downsample_unfold:
  assumes "r \<noteq> 16000"
  shows "downsampleTo16k maxLength buffer r =
    (if ratioOf r = 0 then (if buffer = [] then Inr [] else Inl RangeError)
     else if newLengthOf buffer r < 0 \<or> maxLength < newLengthOf buffer r then Inl RangeError
     else Inr (map (resampleAt buffer (ratioOf r)) [0..<nat (newLengthOf buffer r)]))"
  using assms by (simp add: downsampleTo16k_def ratioOf_def newLengthOf_def Let_def)

lemma newLength_empty: "newLengthOf [] r = 0"
  by (simp add: newLengthOf_def f64_facts Math_round_0)

lemma newLength_nonneg:
  assumes "0 \<le> ratioOf r"
  shows "0 \<le> newLengthOf buffer r"
proof -
  have "0 \<le> f64 (of_nat (length buffer) / ratioOf r)"
    using assms by (intro f64_facts(3)) simp
  then have "Math_round 0 \<le> newLengthOf buffer r"
    unfolding newLengthOf_def by (rule Math_round_mono)
  then show ?thesis by (simp add: Math_round_0)
qed

lemma newLength_nonpos:
  assumes "ratioOf r < 0"
  shows "newLengthOf buffer r \<le> 0"
proof -
  have "of_nat (length buffer) / ratioOf r \<le> 0" using assms by (simp add: divide_le_0_iff)
  then have "f64 (of_nat (length buffer) / ratioOf r) \<le> f64 0" by (rule f64_facts(4))
  then have "newLengthOf buffer r \<le> Math_round 0"
    unfolding newLengthOf_def by (intro Math_round_mono) (simp add: f64_facts)
  then show ?thesis by (simp add: Math_round_0)
qed

lemma ratio_nonneg: "0 < r \<Longrightarrow> 0 \<le> ratioOf r"
  unfolding ratioOf_def by (intro f64_facts(3)) simp

lemma downsample_result:
  assumes "r \<noteq> 16000" "downsampleTo16k maxLength buffer r = Inr out" "0 \<le> maxLength"
  shows "out = map (resampleAt buffer (ratioOf r)) [0..<nat (newLengthOf buffer r)]"
    and "newLengthOf buffer r \<le> maxLength"
    and "out \<noteq> [] \<Longrightarrow> ratioOf r \<noteq> 0"
proof -
  note d = assms(2) [unfolded downsample_unfold [OF assms(1)]]
  show "out = map (resampleAt buffer (ratioOf r)) [0..<nat (newLengthOf buffer r)]"
    using d by (auto simp: newLength_empty split: if_splits)
  show "newLengthOf buffer r \<le> maxLength"
    using d assms(3) by (auto simp: newLength_empty split: if_splits)
  show "out \<noteq> [] \<Longrightarrow> ratioOf r \<noteq> 0"
    using d by (auto split: if_splits)
qed

lemma w51: "(2::rat) powi (- 51) = 4 * 2 powi (- 53)"
proof -
  have "(2::rat) powi 2 * 2 powi (- 53) = 2 powi (2 + (- 53))" by (simp only: powi_add)
  then show ?thesis by simp
qed

lemma huge: "(2::rat) powi 1022 * 2 powi (- 1022) = 1" "(2::rat) ^ 51 \<le> 2 powi 1022"
proof -
  have "(2::rat) powi 1022 * 2 powi (- 1022) = 2 powi (1022 + (- 1022))" by (simp only: powi_add)
  then show "(2::rat) powi 1022 * 2 powi (- 1022) = 1" by simp
  have "(2::rat) powi 51 \<le> 2 powi 1022" by (intro powi_mono) simp
  then show "(2::rat) ^ 51 \<le> 2 powi 1022" by simp
qed

lemma f64_pow51: "f64 (2 ^ 51) = 2 ^ 51"
proof -
  have "f64 (2 powi 51) = 2 powi 51" unfolding f64_def by (rule rnd_powi) simp_all
  then show ?thesis by simp
qed

lemma length_sandwich:
  assumes r: "0 < r" and ne: "buffer \<noteq> []" and rho: "ratioOf r \<noteq> 0"
    and lim: "newLengthOf buffer r < 2 ^ 50"
  shows "\<lfloor>of_nat (length buffer) * 16000 / r * (1 - 2 powi (- 51)) + 1 / 2\<rfloor> \<le> newLengthOf buffer r"
    and "newLengthOf buffer r \<le> \<lfloor>of_nat (length buffer) * 16000 / r * (1 + 2 powi (- 51)) + 1 / 2\<rfloor>"
proof -
  define u where "u = (2::rat) powi (- 53)"
  have u: "0 < u" "u \<le> 1 / 4" unfolding u_def by (rule u53_facts)+
  have w: "(2::rat) powi (- 51) = 4 * u" unfolding u_def by (rule w51)
  define tn where "tn = (2::rat) powi (- 1022)"
  have tn: "0 < tn" "tn < 1 / 2" unfolding tn_def using tiny by simp_all
  have "(2::rat) powi (- 1022) < 2 powi (- 2)" by (intro powi_strict_mono) simp
  moreover have "(2::rat) powi (- 2) = 1 / 4" by (simp add: power_int_minus)
  ultimately have tn4: "tn < 1 / 4" unfolding tn_def by (simp only:)
  define m where "m = (of_nat (length buffer) :: rat)"
  define c where "c = r / 16000"
  define e where "e = m * 16000 / r"
  define \<rho> where "\<rho> = ratioOf r"
  define x where "x = m / \<rho>"
  define q where "q = f64 x"
  define N where "N = newLengthOf buffer r"
  have m1: "1 \<le> m" using ne unfolding m_def by (cases buffer) simp_all
  have c0: "0 < c" using r by (simp add: c_def)
  have ce: "c * e = m" using r by (simp add: c_def e_def)
  have e0: "0 \<le> e" using r m1 by (simp add: e_def)
  have \<rho>c: "\<rho> = f64 c" by (simp add: \<rho>_def ratioOf_def c_def)
  have \<rho>0: "0 < \<rho>" using ratio_nonneg [OF r] rho by (simp add: \<rho>_def)
  have \<rho>x: "\<rho> * x = m" using \<rho>0 by (simp add: x_def)
  have x0: "0 < x" using \<rho>0 m1 by (simp add: x_def)
  have Nq: "N = Math_round q" by (simp add: N_def newLengthOf_def q_def x_def m_def \<rho>_def)
  have Nlim: "N < 2 ^ 50" using lim by (simp add: N_def)
  have cn: "tn \<le> c"
  proof (rule ccontr)
    assume "\<not> tn \<le> c"
    then have "c \<le> tn" by simp
    then have "f64 c \<le> f64 tn" by (rule f64_facts(4))
    then have "\<rho> \<le> tn" unfolding \<rho>c tn_def by (simp only: f64_min_normal)
    then have "\<rho> * x \<le> tn * x" using x0 by (intro mult_right_mono) simp_all
    then have "1 \<le> tn * x" using \<rho>x m1 by linarith
    then have "2 powi 1022 * 1 \<le> 2 powi 1022 * (tn * x)" by (intro mult_left_mono) simp_all
    moreover have "2 powi 1022 * (tn * x) = (2 powi 1022 * tn) * x" by (simp only: mult.assoc)
    ultimately have "2 powi 1022 \<le> x" unfolding tn_def by (simp only: huge(1) mult_1_left mult_1_right)
    then have "2 ^ 51 \<le> x" using huge(2) by linarith
    then have "f64 (2 ^ 51) \<le> f64 x" by (rule f64_facts(4))
    then have "2 ^ 51 \<le> q" by (simp only: f64_pow51 q_def)
    then have "Math_round (2 ^ 51) \<le> Math_round q" by (rule Math_round_mono)
    moreover have "(2::int) ^ 51 \<le> Math_round (2 ^ 51)"
      unfolding Math_round_def by (simp add: le_floor_iff)
    ultimately show False using Nlim Nq by simp
  qed
  have \<rho>b: "\<rho> \<le> c + c * u" "c - c * u \<le> \<rho>"
    unfolding \<rho>c u_def using f64_rel_err [of c] cn by (simp_all add: tn_def)
  have ex: "e \<le> x + x * u" "x - x * u \<le> e"
  proof -
    have "c * e \<le> (c + c * u) * x" using \<rho>b(1) x0 ce \<rho>x mult_right_mono [of \<rho> "c + c * u" x] by simp
    then have "c * e \<le> c * (x + x * u)" by (simp add: algebra_simps)
    then show "e \<le> x + x * u" using c0 by (simp only: mult_le_cancel_left_pos)
    have "(c - c * u) * x \<le> c * e" using \<rho>b(2) x0 ce \<rho>x mult_right_mono [of "c - c * u" \<rho> x] by simp
    then have "c * (x - x * u) \<le> c * e" by (simp add: algebra_simps)
    then show "x - x * u \<le> e" using c0 by (simp only: mult_le_cancel_left_pos)
  qed
  have uu: "0 \<le> u * u" "u * u \<le> u * (1 / 4)" using u by (simp_all add: mult_left_mono)
  have xuu: "0 \<le> x * (u * u)" "x * (u * u) \<le> x * (u * (1 / 4))"
    using uu x0 by (simp_all add: mult_left_mono)
  have lo_hi: "e * (1 - 4 * u) - 1 / 2 < of_int N \<and> of_int N \<le> e * (1 + 4 * u) + 1 / 2"
  proof -
    consider "x < tn" | "tn \<le> x" by linarith
    then show ?thesis
    proof cases
      case 1
      then have "q < 1 / 2" unfolding q_def tn_def by (rule f64_below_normal)
      moreover have "0 \<le> q" unfolding q_def using x0 by (intro f64_facts(3)) simp
      ultimately have "N = 0" unfolding Nq Math_round_def by (simp add: floor_eq_iff)
      moreover have "x * u \<le> x * (1 / 4)" using u(2) x0 by (intro mult_left_mono) simp_all
      then have "e < 1 / 2" using ex(1) 1 tn4 by linarith
      moreover have "0 \<le> e * (4 * u)" using e0 u(1) by simp
      ultimately show ?thesis using e0 by (simp add: algebra_simps)
    next
      case 2
      have qb: "q \<le> x + x * u" "x - x * u \<le> q"
        unfolding q_def u_def using f64_rel_err [of x] 2 by (simp_all add: tn_def)
      have "(x - x * u) * (1 + 4 * u) \<le> e * (1 + 4 * u)"
        using ex(2) u(1) by (intro mult_right_mono) simp_all
      moreover have "(x - x * u) * (1 + 4 * u) = x + 3 * (x * u) - 4 * (x * (u * u))"
        by (simp add: algebra_simps)
      moreover have "x * (u * (1 / 4)) = (x * u) / 4" by simp
      moreover have "0 \<le> x * u" using x0 u(1) by simp
      ultimately have hi: "q \<le> e * (1 + 4 * u)" using qb(1) xuu by linarith
      have "e * (1 - 4 * u) \<le> (x + x * u) * (1 - 4 * u)"
        using ex(1) u(2) by (intro mult_right_mono) simp_all
      moreover have "(x + x * u) * (1 - 4 * u) = x - 3 * (x * u) - 4 * (x * (u * u))"
        by (simp add: algebra_simps)
      moreover have "0 \<le> x * u" using x0 u(1) by simp
      ultimately have lo: "e * (1 - 4 * u) \<le> q" using qb(2) xuu by linarith
      show ?thesis using lo hi Math_round_bounds [of q] unfolding Nq by linarith
    qed
  qed
  have "e * (1 - 4 * u) + 1 / 2 < of_int N + 1" using lo_hi by linarith
  then have "e * (1 - 4 * u) + 1 / 2 < of_int (N + 1)" by simp
  then have "\<lfloor>e * (1 - 4 * u) + 1 / 2\<rfloor> < N + 1" by (simp only: floor_less_iff)
  then show "\<lfloor>of_nat (length buffer) * 16000 / r * (1 - 2 powi (- 51)) + 1 / 2\<rfloor> \<le> newLengthOf buffer r"
    unfolding w by (simp add: e_def m_def N_def)
  have "of_int N \<le> e * (1 + 4 * u) + 1 / 2" using lo_hi by simp
  then have "N \<le> \<lfloor>e * (1 + 4 * u) + 1 / 2\<rfloor>" by (simp only: le_floor_iff)
  then show "newLengthOf buffer r \<le> \<lfloor>of_nat (length buffer) * 16000 / r * (1 + 2 powi (- 51)) + 1 / 2\<rfloor>"
    unfolding w by (simp add: e_def m_def N_def)
qed

lemma Math_round_between:
  assumes "0 \<le> e" "0 \<le> w"
  shows "\<lfloor>e * (1 - w) + 1 / 2\<rfloor> \<le> Math_round e" "Math_round e \<le> \<lfloor>e * (1 + w) + 1 / 2\<rfloor>"
proof -
  have "0 \<le> e * w" using assms by simp
  then have "e * (1 - w) + 1 / 2 \<le> e + 1 / 2" "e + 1 / 2 \<le> e * (1 + w) + 1 / 2"
    by (simp_all add: algebra_simps)
  then show "\<lfloor>e * (1 - w) + 1 / 2\<rfloor> \<le> Math_round e" "Math_round e \<le> \<lfloor>e * (1 + w) + 1 / 2\<rfloor>"
    unfolding Math_round_def by (simp_all only: floor_mono)
qed


lemma ratio_pos:
  assumes "1 \<le> r"
  shows "0 < ratioOf r"
proof -
  have p: "(2::rat) powi (- 14) = 1 / 16384" by (simp add: power_int_minus)
  have "f64 (2 powi (- 14)) = 2 powi (- 14)" unfolding f64_def by (rule rnd_powi) simp_all
  moreover have "2 powi (- 14) \<le> r / 16000" using assms unfolding p by simp
  then have "f64 (2 powi (- 14)) \<le> f64 (r / 16000)" by (rule f64_facts(4))
  ultimately have "2 powi (- 14) \<le> ratioOf r" by (simp only: ratioOf_def)
  then show ?thesis using powi_pos [of "- 14"] by linarith
qed

lemma downsample_returns:
  assumes "0 < r" "r \<noteq> 16000" "0 \<le> maxLength"
  shows "downsampleTo16k maxLength buffer r =
    (if ratioOf r = 0 \<and> buffer \<noteq> [] \<or> maxLength < newLengthOf buffer r then Inl RangeError
     else Inr (map (resampleAt buffer (ratioOf r)) [0..<nat (newLengthOf buffer r)]))"
proof -
  have N0: "0 \<le> newLengthOf buffer r" by (rule newLength_nonneg [OF ratio_nonneg [OF assms(1)]])
  have e: "buffer = [] \<longrightarrow> newLengthOf buffer r = 0" by (simp add: newLength_empty)
  show ?thesis using N0 e assms(3) by (auto simp: downsample_unfold [OF assms(2)])
qed

lemma reads_in_bounds:
  assumes "0 < r" "ratioOf r \<noteq> 0" "newLengthOf buffer r < 2 ^ 50" "i < nat (newLengthOf buffer r)"
  shows "0 \<le> indexFloor (ratioOf r) i" "indexFloor (ratioOf r) i \<le> int (length buffer) - 1"
    "0 \<le> indexCeil buffer (ratioOf r) i" "indexCeil buffer (ratioOf r) i \<le> int (length buffer) - 1"
    "indexFloor (ratioOf r) i \<le> indexCeil buffer (ratioOf r) i"
proof -
  have pos: "0 < ratioOf r" using ratio_nonneg [OF assms(1)] assms(2) by linarith
  have ne: "buffer \<noteq> []" using assms(4) by (auto simp: newLength_empty)
  have lt: "int i < Math_round (f64 (of_nat (length buffer) / ratioOf r))"
    using assms(4) unfolding newLengthOf_def by linarith
  have lim: "Math_round (f64 (of_nat (length buffer) / ratioOf r)) < 2 ^ 50"
    using assms(3) unfolding newLengthOf_def .
  note b = in_bounds [OF pos ne lt lim]
  show "0 \<le> indexFloor (ratioOf r) i" "indexFloor (ratioOf r) i \<le> int (length buffer) - 1"
    "0 \<le> indexCeil buffer (ratioOf r) i" "indexCeil buffer (ratioOf r) i \<le> int (length buffer) - 1"
    "indexFloor (ratioOf r) i \<le> indexCeil buffer (ratioOf r) i"
    by (rule b)+
qed

subsection \<open>Sample values\<close>

lemma sample_ratios:
  "ratioOf 48000 = 3"
  "ratioOf 8960 = 5044031582654956 / 2 ^ 53"
  "ratioOf 37800 = 189 / 80 - 1 / (5 * 2 ^ 50)"
  by code_simp+

lemma sample_lengths:
  "newLengthOf [1, 2, 3, 4, 5, 6] 48000 = 2"
  "newLengthOf [0, 0, 0, 0, 0, 0, 0] 8960 = 12"
  by code_simp+

lemma sample_length_4096:
  "newLengthOf silence 37800 = 1734" "newLengthOf impulse 37800 = 1734"
proof -
  have "Math_round (f64 (4096 / ratioOf 37800)) = 1734" by code_simp
  then show "newLengthOf silence 37800 = 1734" "newLengthOf impulse 37800 = 1734"
    by (simp_all add: newLengthOf_def silence_def impulse_def)
qed

lemma sample_index:
  "f64 (of_nat 400 * ratioOf 37800) = 945 - 1 / 2 ^ 43"
  by code_simp

lemma sample_indices:
  "indexFloor (ratioOf 37800) 400 = 944"
  "indexCeil silence (ratioOf 37800) 400 = 945"
  "indexCeil impulse (ratioOf 37800) 400 = 945"
proof -
  have f: "\<lfloor>945 - 1 / 2 ^ 43 :: rat\<rfloor> = 944" by (simp add: floor_eq_iff)
  have c: "\<lceil>945 - 1 / 2 ^ 43 :: rat\<rceil> = 945" by (simp add: ceiling_eq_iff)
  show "indexFloor (ratioOf 37800) 400 = 944"
    unfolding indexFloor_def sample_index by (rule f)
  show "indexCeil silence (ratioOf 37800) 400 = 945"
    unfolding indexCeil_def sample_index c by (simp add: silence_def)
  show "indexCeil impulse (ratioOf 37800) 400 = 945"
    unfolding indexCeil_def sample_index c by (simp add: impulse_def)
qed

lemma sample_reads:
  "readSample impulse 944 = Some 1" "readSample impulse 945 = Some 0"
  by (simp_all add: readSample_def impulse_def nth_append)

lemma sample_interpolation:
  "f32 (f64 (1 + f64 (f64 (0 - 1) * f64 (945 - 1 / 2 ^ 43 - of_int 944)))) = 1 / 2 ^ 43"
  by code_simp

lemma sample_resampleAt:
  "resampleAt impulse (ratioOf 37800) 400 = Some (1 / 2 ^ 43)"
  unfolding resampleAt_def Let_def sample_indices sample_reads sample_index
  using sample_interpolation by simp

lemma sample_singles: "f32 1 = 1"
  by code_simp

text \<open>
  Claim C10, with the floor index as the source computes it. For a positive rate other
  than 16000 the resampler throws a RangeError when the ratio has rounded to zero (a
  rate below 1 can do that) for a buffer that is not empty, or when the new length is
  above the limit of the engine; otherwise it returns, and every read it performs is in
  bounds: for each output index \<open>i\<close> the floor index, the floor of the double product
  \<open>i * ratio\<close>, and the clamped ceiling index lie between 0 and \<open>length buffer - 1\<close>, so
  both reads give a sample. For the empty buffer the length is 0 and nothing is read.
\<close>

theorem resampler_reads_in_bounds:
  assumes "0 < r" "r \<noteq> 16000" "0 \<le> maxLength" "maxLength < 2 ^ 50"
  shows "downsampleTo16k maxLength buffer r =
    (if ratioOf r = 0 \<and> buffer \<noteq> [] \<or> maxLength < newLengthOf buffer r then Inl RangeError
     else Inr (map (resampleAt buffer (ratioOf r)) [0..<nat (newLengthOf buffer r)]))
    \<and> (1 \<le> r \<longrightarrow> ratioOf r \<noteq> 0)
    \<and> (buffer = [] \<longrightarrow> newLengthOf buffer r = 0)
    \<and> (ratioOf r \<noteq> 0 \<and> newLengthOf buffer r \<le> maxLength \<longrightarrow>
        (\<forall>i < nat (newLengthOf buffer r).
            indexFloor (ratioOf r) i = \<lfloor>f64 (of_nat i * ratioOf r)\<rfloor>
            \<and> 0 \<le> indexFloor (ratioOf r) i
            \<and> indexFloor (ratioOf r) i \<le> int (length buffer) - 1
            \<and> 0 \<le> indexCeil buffer (ratioOf r) i
            \<and> indexCeil buffer (ratioOf r) i \<le> int (length buffer) - 1
            \<and> readSample buffer (indexFloor (ratioOf r) i) \<noteq> None
            \<and> readSample buffer (indexCeil buffer (ratioOf r) i) \<noteq> None
            \<and> resampleAt buffer (ratioOf r) i \<noteq> None))"
proof -
  let ?ratio = "ratioOf r"
  let ?N = "newLengthOf buffer r"
  have 1: "downsampleTo16k maxLength buffer r =
    (if ?ratio = 0 \<and> buffer \<noteq> [] \<or> maxLength < ?N then Inl RangeError
     else Inr (map (resampleAt buffer ?ratio) [0..<nat ?N]))"
    by (rule downsample_returns [OF assms(1,2,3)])
  have p: "1 \<le> r \<longrightarrow> ?ratio \<noteq> 0" using ratio_pos [of r] by auto
  have e: "buffer = [] \<longrightarrow> ?N = 0" by (simp add: newLength_empty)
  have 2: "indexFloor ?ratio i = \<lfloor>f64 (of_nat i * ?ratio)\<rfloor>
            \<and> 0 \<le> indexFloor ?ratio i
            \<and> indexFloor ?ratio i \<le> int (length buffer) - 1
            \<and> 0 \<le> indexCeil buffer ?ratio i
            \<and> indexCeil buffer ?ratio i \<le> int (length buffer) - 1
            \<and> readSample buffer (indexFloor ?ratio i) \<noteq> None
            \<and> readSample buffer (indexCeil buffer ?ratio i) \<noteq> None
            \<and> resampleAt buffer ?ratio i \<noteq> None"
    if h: "?ratio \<noteq> 0" "?N \<le> maxLength" and i: "i < nat ?N" for i
  proof -
    have lim: "?N < 2 ^ 50" using h(2) assms(4) by linarith
    note b = reads_in_bounds [OF assms(1) h(1) lim i]
    have r1: "readSample buffer (indexFloor ?ratio i) \<noteq> None"
      using b(1,2) by (simp add: readSample_def)
    have r2: "readSample buffer (indexCeil buffer ?ratio i) \<noteq> None"
      using b(3,4) by (simp add: readSample_def)
    have r3: "resampleAt buffer ?ratio i \<noteq> None"
      using r1 r2 by (auto simp: resampleAt_def Let_def)
    show ?thesis using b r1 r2 r3 by (simp add: indexFloor_def)
  qed
  show ?thesis using 1 p e 2 by blast
qed

theorem resampler_reads_in_bounds_witness:
  "downsampleTo16k 4294967295 [1, 2, 3, 4, 5, 6] 48000
     = Inr (map (resampleAt [1, 2, 3, 4, 5, 6] (ratioOf 48000)) [0..<2])
   \<and> indexFloor (ratioOf 48000) 1 = 3
   \<and> indexCeil [1, 2, 3, 4, 5, 6] (ratioOf 48000) 1 = 3
   \<and> 0 \<le> indexFloor (ratioOf 48000) 1
   \<and> indexFloor (ratioOf 48000) 1 \<le> int (length [1, 2, 3, 4, 5, 6 :: rat]) - 1
   \<and> 0 \<le> indexCeil [1, 2, 3, 4, 5, 6] (ratioOf 48000) 1
   \<and> indexCeil [1, 2, 3, 4, 5, 6] (ratioOf 48000) 1 \<le> int (length [1, 2, 3, 4, 5, 6 :: rat]) - 1
   \<and> readSample [1, 2, 3, 4, 5, 6] (indexFloor (ratioOf 48000) 1) \<noteq> None
   \<and> readSample [1, 2, 3, 4, 5, 6] (indexCeil [1, 2, 3, 4, 5, 6] (ratioOf 48000) 1) \<noteq> None
   \<and> resampleAt [1, 2, 3, 4, 5, 6] (ratioOf 48000) 1 \<noteq> None"
proof -
  have h: "(0::rat) < 48000" "(48000::rat) \<noteq> 16000" "(0::int) \<le> 4294967295"
    "(4294967295::int) < 2 ^ 50"
    by simp_all
  have v: "downsampleTo16k 4294967295 [1, 2, 3, 4, 5, 6] 48000
      = Inr (map (resampleAt [1, 2, 3, 4, 5, 6] (ratioOf 48000)) [0..<2])"
    by (simp add: downsample_unfold sample_ratios sample_lengths)
  have c: "ratioOf 48000 \<noteq> 0" "newLengthOf [1, 2, 3, 4, 5, 6] 48000 \<le> 4294967295"
    by (simp_all add: sample_ratios sample_lengths)
  have i: "1 < nat (newLengthOf [1, 2, 3, 4, 5, 6] 48000)"
    by (simp add: sample_lengths)
  have x: "indexFloor (ratioOf 48000) 1 = 3" "indexCeil [1, 2, 3, 4, 5, 6] (ratioOf 48000) 1 = 3"
    by code_simp+
  show ?thesis
    using resampler_reads_in_bounds [OF h, of "[1, 2, 3, 4, 5, 6]"] v c i x by blast
qed

text \<open>
  The floor index of the source is not always \<open>floor (i * r / 16000)\<close>: for 4096 samples
  at 37800 Hz the ratio rounds to a double just below 2.3625 and the product at output
  index 400 to the double just below 945, so the source reads \<open>buffer[944]\<close> and
  \<open>buffer[945]\<close>, where \<open>400 * 37800 / 16000\<close> is 945.
\<close>

theorem resampler_reads_in_bounds_counterexample:
  "(\<exists>out. downsampleTo16k 4294967295 silence 37800 = Inr out \<and> 400 < length out)
   \<and> indexFloor (ratioOf 37800) 400 = 944
   \<and> indexCeil silence (ratioOf 37800) 400 = 945
   \<and> \<lfloor>of_nat 400 * 37800 / 16000 :: rat\<rfloor> = 945"
proof -
  have nz: "ratioOf 37800 \<noteq> 0" using ratio_pos [of 37800] by simp
  have "downsampleTo16k 4294967295 silence 37800
      = Inr (map (resampleAt silence (ratioOf 37800)) [0..<1734])"
    using nz by (simp add: downsample_unfold sample_length_4096)
  then have 1: "\<exists>out. downsampleTo16k 4294967295 silence 37800 = Inr out \<and> 400 < length out"
    by simp
  have 2: "\<lfloor>of_nat 400 * 37800 / 16000 :: rat\<rfloor> = 945" by simp
  show ?thesis using 1 2 sample_indices(1,2) by blast
qed

text \<open>
  Claim C9. Whenever the resampler returns a buffer for a rate other than 16000, each
  output sample is read from two input samples that exist, \<open>buffer[indexFloor]\<close> and
  \<open>buffer[indexCeil]\<close>, and lies between the smaller and the larger of the two, for
  every buffer of singles and every limit of the engine below \<open>2 ^ 50\<close>. (For the rate
  16000 the input is returned as it is.)
\<close>

theorem resampler_interpolation_bound:
  assumes "downsampleTo16k maxLength buffer r = Inr out" "0 \<le> maxLength" "maxLength < 2 ^ 50"
    "\<forall>x \<in> set buffer. f32 x = x"
  shows "(r = 16000 \<longrightarrow> out = map Some buffer)
    \<and> (r \<noteq> 16000 \<longrightarrow> (\<forall>i < length out. \<exists>val1 val2 y.
          readSample buffer (indexFloor (ratioOf r) i) = Some val1
          \<and> readSample buffer (indexCeil buffer (ratioOf r) i) = Some val2
          \<and> out ! i = Some y \<and> min val1 val2 \<le> y \<and> y \<le> max val1 val2))"
proof -
  let ?ratio = "ratioOf r"
  let ?N = "newLengthOf buffer r"
  have 1: "r = 16000 \<longrightarrow> out = map Some buffer"
    using assms(1) by (auto simp: downsampleTo16k_def)
  have 2: "\<exists>val1 val2 y.
          readSample buffer (indexFloor ?ratio i) = Some val1
          \<and> readSample buffer (indexCeil buffer ?ratio i) = Some val2
          \<and> out ! i = Some y \<and> min val1 val2 \<le> y \<and> y \<le> max val1 val2"
    if r: "r \<noteq> 16000" and i: "i < length out" for i
  proof -
    note d = downsample_result [OF r assms(1,2)]
    have lt: "int i < ?N" using i d(1) by simp
    have "out \<noteq> []" using i by auto
    then have nz: "?ratio \<noteq> 0" by (rule d(3))
    have pos: "0 < ?ratio"
    proof (rule ccontr)
      assume "\<not> 0 < ?ratio"
      then have "?ratio < 0" using nz by linarith
      then show False using newLength_nonpos [of r buffer] lt by linarith
    qed
    have ne: "buffer \<noteq> []"
    proof
      assume "buffer = []"
      then show False using lt by (simp add: newLength_empty)
    qed
    have lt': "int i < Math_round (f64 (of_nat (length buffer) / ?ratio))"
      using lt unfolding newLengthOf_def .
    have lim: "Math_round (f64 (of_nat (length buffer) / ?ratio)) < 2 ^ 50"
      using d(2) assms(3) unfolding newLengthOf_def by linarith
    have "out ! i = resampleAt buffer ?ratio i" using i d(1) by simp
    then show ?thesis using resampleAt_between [OF pos ne lt' lim assms(4)] by simp
  qed
  show ?thesis using 1 2 by blast
qed

theorem resampler_interpolation_bound_witness:
  "downsampleTo16k 4294967295 impulse 37800
     = Inr (map (resampleAt impulse (ratioOf 37800)) [0..<1734])
   \<and> readSample impulse (indexFloor (ratioOf 37800) 400) = Some 1
   \<and> readSample impulse (indexCeil impulse (ratioOf 37800) 400) = Some 0
   \<and> map (resampleAt impulse (ratioOf 37800)) [0..<1734] ! 400 = Some (1 / 2 ^ 43)
   \<and> (\<exists>val1 val2 y.
        readSample impulse (indexFloor (ratioOf 37800) 400) = Some val1
        \<and> readSample impulse (indexCeil impulse (ratioOf 37800) 400) = Some val2
        \<and> map (resampleAt impulse (ratioOf 37800)) [0..<1734] ! 400 = Some y
        \<and> min val1 val2 \<le> y \<and> y \<le> max val1 val2)"
proof -
  let ?out = "map (resampleAt impulse (ratioOf 37800)) [0..<1734]"
  have nz: "ratioOf 37800 \<noteq> 0" using ratio_pos [of 37800] by simp
  have v: "downsampleTo16k 4294967295 impulse 37800 = Inr ?out"
    using nz by (simp add: downsample_unfold sample_length_4096)
  have m: "(0::int) \<le> 4294967295" "(4294967295::int) < 2 ^ 50" by simp_all
  have s: "\<forall>x \<in> set impulse. f32 x = x"
    by (auto simp: impulse_def f32_facts sample_singles)
  have r: "(37800::rat) \<noteq> 16000" by simp
  have i: "400 < length ?out" by simp
  have y: "?out ! 400 = Some (1 / 2 ^ 43)"
    using sample_resampleAt by simp
  have rd: "readSample impulse (indexFloor (ratioOf 37800) 400) = Some 1"
    "readSample impulse (indexCeil impulse (ratioOf 37800) 400) = Some 0"
    by (simp_all only: sample_indices sample_reads)
  show ?thesis
    using resampler_interpolation_bound [OF v m s] r i v y rd by blast
qed

text \<open>
  Claim C3, with the length as the source computes it. For a positive rate \<open>r\<close> other
  than 16000 the resampler returns unless the ratio has rounded to zero for a buffer
  that is not empty or the new length is above the limit of the engine. The buffer it
  returns has the length \<open>Math.round\<close> of the double quotient of the input length by
  the double ratio \<open>r / 16000\<close>. With \<open>e = length buffer * 16000 / r\<close> that length lies
  between \<open>floor (e * (1 - 2 ^ -51) + 1 / 2)\<close> and \<open>floor (e * (1 + 2 ^ -51) + 1 / 2)\<close>;
  where the two agree it is the rounded \<open>e\<close> of the length law. For an empty buffer
  the result is empty.
\<close>

theorem resampler_length:
  assumes "0 < r" "r \<noteq> 16000" "0 \<le> maxLength" "maxLength < 2 ^ 50"
  shows "downsampleTo16k maxLength buffer r =
    (if ratioOf r = 0 \<and> buffer \<noteq> [] \<or> maxLength < newLengthOf buffer r then Inl RangeError
     else Inr (map (resampleAt buffer (ratioOf r)) [0..<nat (newLengthOf buffer r)]))
    \<and> (1 \<le> r \<longrightarrow> ratioOf r \<noteq> 0)
    \<and> (\<forall>out. downsampleTo16k maxLength buffer r = Inr out \<longrightarrow>
          int (length out) = newLengthOf buffer r
          \<and> \<lfloor>of_nat (length buffer) * 16000 / r * (1 - 2 powi (- 51)) + 1 / 2\<rfloor> \<le> int (length out)
          \<and> int (length out) \<le> \<lfloor>of_nat (length buffer) * 16000 / r * (1 + 2 powi (- 51)) + 1 / 2\<rfloor>
          \<and> (\<lfloor>of_nat (length buffer) * 16000 / r * (1 - 2 powi (- 51)) + 1 / 2\<rfloor>
               = \<lfloor>of_nat (length buffer) * 16000 / r * (1 + 2 powi (- 51)) + 1 / 2\<rfloor>
              \<longrightarrow> int (length out) = Math_round (of_nat (length buffer) * 16000 / r)))
    \<and> (buffer = [] \<longrightarrow> downsampleTo16k maxLength buffer r = Inr [])"
proof -
  let ?e = "of_nat (length buffer) * 16000 / r :: rat"
  let ?w = "(2::rat) powi (- 51)"
  let ?N = "newLengthOf buffer r"
  have 1: "downsampleTo16k maxLength buffer r =
    (if ratioOf r = 0 \<and> buffer \<noteq> [] \<or> maxLength < ?N then Inl RangeError
     else Inr (map (resampleAt buffer (ratioOf r)) [0..<nat ?N]))"
    by (rule downsample_returns [OF assms(1,2,3)])
  have p: "1 \<le> r \<longrightarrow> ratioOf r \<noteq> 0" using ratio_pos [of r] by auto
  have emp: "buffer = [] \<longrightarrow> downsampleTo16k maxLength buffer r = Inr []"
    using assms(3) unfolding 1 by (simp add: newLength_empty)
  have N0: "0 \<le> ?N" by (rule newLength_nonneg [OF ratio_nonneg [OF assms(1)]])
  have e0: "0 \<le> ?e" using assms(1) by simp
  have w0: "0 \<le> ?w" by simp
  have mid: "\<lfloor>?e * (1 - ?w) + 1 / 2\<rfloor> \<le> Math_round ?e" "Math_round ?e \<le> \<lfloor>?e * (1 + ?w) + 1 / 2\<rfloor>"
    by (rule Math_round_between [OF e0 w0])+
  have 2: "int (length out) = ?N
          \<and> \<lfloor>?e * (1 - ?w) + 1 / 2\<rfloor> \<le> int (length out)
          \<and> int (length out) \<le> \<lfloor>?e * (1 + ?w) + 1 / 2\<rfloor>
          \<and> (\<lfloor>?e * (1 - ?w) + 1 / 2\<rfloor> = \<lfloor>?e * (1 + ?w) + 1 / 2\<rfloor>
              \<longrightarrow> int (length out) = Math_round ?e)"
    if out: "downsampleTo16k maxLength buffer r = Inr out" for out
  proof -
    note d = downsample_result [OF assms(2) out assms(3)]
    have len: "int (length out) = ?N" using d(1) N0 by simp
    have sw: "\<lfloor>?e * (1 - ?w) + 1 / 2\<rfloor> \<le> ?N \<and> ?N \<le> \<lfloor>?e * (1 + ?w) + 1 / 2\<rfloor>"
    proof (cases buffer)
      case Nil
      have "\<lfloor>(1 / 2 :: rat)\<rfloor> = 0" by (simp add: floor_eq_iff)
      then show ?thesis using Nil by (simp add: newLength_empty)
    next
      case (Cons a list)
      then have ne: "buffer \<noteq> []" by simp
      have "out \<noteq> [] \<or> ?N = 0" using d(1) N0 by auto
      then consider "ratioOf r \<noteq> 0" | "?N = 0" "ratioOf r = 0" using d(3) by blast
      then show ?thesis
      proof cases
        case 1
        have lim: "?N < 2 ^ 50" using d(2) assms(4) by linarith
        show ?thesis using length_sandwich [OF assms(1) ne 1 lim] by simp
      next
        case 2
        then show ?thesis using out ne by (simp add: downsample_unfold [OF assms(2)])
      qed
    qed
    show ?thesis using len sw mid by simp
  qed
  show ?thesis using 1 p 2 emp by blast
qed

theorem resampler_length_witness:
  "downsampleTo16k 4294967295 [1, 2, 3, 4, 5, 6] 48000
     = Inr (map (resampleAt [1, 2, 3, 4, 5, 6] (ratioOf 48000)) [0..<2])
   \<and> int (length (map (resampleAt [1, 2, 3, 4, 5, 6] (ratioOf 48000)) [0..<2]))
       = newLengthOf [1, 2, 3, 4, 5, 6] 48000
   \<and> \<lfloor>of_nat (length [1, 2, 3, 4, 5, 6 :: rat]) * 16000 / 48000 * (1 - 2 powi (- 51)) + 1 / 2 :: rat\<rfloor>
       = \<lfloor>of_nat (length [1, 2, 3, 4, 5, 6 :: rat]) * 16000 / 48000 * (1 + 2 powi (- 51)) + 1 / 2 :: rat\<rfloor>
   \<and> int (length (map (resampleAt [1, 2, 3, 4, 5, 6] (ratioOf 48000)) [0..<2]))
       = Math_round (of_nat (length [1, 2, 3, 4, 5, 6 :: rat]) * 16000 / 48000)
   \<and> downsampleTo16k 4294967295 [] 48000 = Inr []"
proof -
  let ?out = "map (resampleAt [1, 2, 3, 4, 5, 6] (ratioOf 48000)) [0..<2]"
  have h: "(0::rat) < 48000" "(48000::rat) \<noteq> 16000" "(0::int) \<le> 4294967295"
    "(4294967295::int) < 2 ^ 50"
    by simp_all
  have v: "downsampleTo16k 4294967295 [1, 2, 3, 4, 5, 6] 48000 = Inr ?out"
    by (simp add: downsample_unfold sample_ratios sample_lengths)
  have w: "(2::rat) powi (- 51) = 1 / 2 ^ 51" by (simp add: power_int_minus)
  have f1: "\<lfloor>of_nat (length [1, 2, 3, 4, 5, 6 :: rat]) * 16000 / 48000 * (1 - 1 / 2 ^ 51) + 1 / 2 :: rat\<rfloor> = 2"
    by (simp add: floor_eq_iff)
  have f2: "\<lfloor>of_nat (length [1, 2, 3, 4, 5, 6 :: rat]) * 16000 / 48000 * (1 + 1 / 2 ^ 51) + 1 / 2 :: rat\<rfloor> = 2"
    by (simp add: floor_eq_iff)
  have f: "\<lfloor>of_nat (length [1, 2, 3, 4, 5, 6 :: rat]) * 16000 / 48000 * (1 - 2 powi (- 51)) + 1 / 2 :: rat\<rfloor>
       = \<lfloor>of_nat (length [1, 2, 3, 4, 5, 6 :: rat]) * 16000 / 48000 * (1 + 2 powi (- 51)) + 1 / 2 :: rat\<rfloor>"
    unfolding w f1 f2 by (rule refl)
  have e: "downsampleTo16k 4294967295 [] 48000 = Inr []"
    using resampler_length [OF h, of "[]"] by blast
  show ?thesis
    using resampler_length [OF h, of "[1, 2, 3, 4, 5, 6]"] v f e by blast
qed

text \<open>
  The length is not always the rounded \<open>e\<close>: for 7 samples at 8960 Hz the ratio 0.56
  rounds to a double above 0.56 and the quotient to the double just below 12.5, so
  the source returns 12 samples, where \<open>7 * 16000 / 8960\<close> is 12.5 and rounds to 13.
\<close>

theorem resampler_length_counterexample:
  "(\<exists>out. downsampleTo16k 4294967295 [0, 0, 0, 0, 0, 0, 0] 8960 = Inr out \<and> length out = 12)
   \<and> Math_round (of_nat (length [0, 0, 0, 0, 0, 0, 0 :: rat]) * 16000 / 8960) = 13"
proof -
  have "Math_round (of_nat (length [0, 0, 0, 0, 0, 0, 0 :: rat]) * 16000 / 8960) = 13"
    by (simp add: Math_round_def floor_eq_iff)
  moreover have "downsampleTo16k 4294967295 [0, 0, 0, 0, 0, 0, 0] 8960
      = Inr (map (resampleAt [0, 0, 0, 0, 0, 0, 0] (ratioOf 8960)) [0..<12])"
    by (simp add: downsample_unfold sample_ratios sample_lengths)
  ultimately show ?thesis by simp
qed

section \<open>Properties of the inbound message handler\<close>

lemma scheduled_append: "scheduled (xs @ ys) = scheduled xs @ scheduled ys"
  by (induction xs rule: scheduled.induct) simp_all

lemma callbacks_append: "callbacks (xs @ ys) = callbacks xs @ callbacks ys"
  by (induction xs rule: callbacks.induct) simp_all

lemma handleMessage_fst:
  "fst (handleMessage c m s) =
     handleInterruption c m
       (fst (handleAudio c m (fst (handleTurnComplete m (fst (handleTranscriptions m s))))))"
  by (simp add: handleMessage_def split: prod.splits)

lemma handleMessage_snd:
  "snd (handleMessage c m s) =
     snd (handleTranscriptions m s)
     @ snd (handleTurnComplete m (fst (handleTranscriptions m s)))
     @ snd (handleAudio c m (fst (handleTurnComplete m (fst (handleTranscriptions m s)))))"
  by (simp add: handleMessage_def split: prod.splits)

lemma run_Nil: "run [] s = (s, [])"
  by (simp add: run.simps)

lemma run_Cons:
  "fst (run ((c, m) # rest) s) = fst (run rest (fst (handleMessage c m s)))"
  "snd (run ((c, m) # rest) s) =
     snd (handleMessage c m s) @ snd (run rest (fst (handleMessage c m s)))"
  by (simp_all add: run.simps split_beta)

lemma run_fst_append: "fst (run (xs @ ys) s) = fst (run ys (fst (run xs s)))"
  by (induction xs arbitrary: s) (auto simp: run_Nil run_Cons)

lemma run_snd_append:
  "snd (run (xs @ ys) s) = snd (run xs s) @ snd (run ys (fst (run xs s)))"
  by (induction xs arbitrary: s) (auto simp: run_Nil run_Cons)

text \<open>A chunk that decodes has the declared rate and at least one frame.\<close>

lemma decodeChunk_ok:
  assumes "decodeChunk b = Inr buf"
  shows "sampleRate buf = 24000 \<and> 0 < frames buf"
  using assms
  by (auto simp: decodeChunk_def decodeAudioData_def createBuffer_def
      split: sum.splits if_splits)

lemma duration_pos: "decodeChunk b = Inr buf \<Longrightarrow> 0 < duration buf"
  using decodeChunk_ok [of b buf] by (simp add: duration_def)

subsection \<open>What each step of the handler leaves alone\<close>

lemma transcriptions_frame:
  "outputAudioContext (fst (handleTranscriptions m s)) = outputAudioContext s"
  "outputNode (fst (handleTranscriptions m s)) = outputNode s"
  "nextStartTime (fst (handleTranscriptions m s)) = nextStartTime s"
  "scheduled (snd (handleTranscriptions m s)) = []"
  by (simp_all add: handleTranscriptions_def Let_def split: option.splits)

lemma turnComplete_frame:
  "outputAudioContext (fst (handleTurnComplete m s)) = outputAudioContext s"
  "outputNode (fst (handleTurnComplete m s)) = outputNode s"
  "nextStartTime (fst (handleTurnComplete m s)) = nextStartTime s"
  "scheduled (snd (handleTurnComplete m s)) = []"
  by (simp_all add: handleTurnComplete_def flushInput_def flushOutput_def Let_def
      split: prod.splits)

lemma audio_frame:
  "outputAudioContext (fst (handleAudio c m s)) = outputAudioContext s"
  "outputNode (fst (handleAudio c m s)) = outputNode s"
  "currentInputTranscription (fst (handleAudio c m s)) = currentInputTranscription s"
  "currentOutputTranscription (fst (handleAudio c m s)) = currentOutputTranscription s"
  "callbacks (snd (handleAudio c m s)) = []"
  by (simp_all add: handleAudio_def Let_def split: option.splits sum.splits)

lemma interruption_frame:
  "outputAudioContext (handleInterruption c m s) = outputAudioContext s"
  "outputNode (handleInterruption c m s) = outputNode s"
  "currentInputTranscription (handleInterruption c m s) = currentInputTranscription s"
  by (simp_all add: handleInterruption_def)

lemma handleMessage_devices:
  "outputAudioContext (fst (handleMessage c m s)) = outputAudioContext s"
  "outputNode (fst (handleMessage c m s)) = outputNode s"
  by (simp_all add: handleMessage_fst interruption_frame audio_frame turnComplete_frame
      transcriptions_frame)

subsection \<open>Scheduling\<close>

lemma handleAudio_ok:
  assumes "base64Audio m = Some b64" "b64 \<noteq> []" "decodeChunk b64 = Inr buf"
    "outputAudioContext s" "outputNode s"
  shows "handleAudio c m s =
    (s\<lparr>nextStartTime := max (nextStartTime s) (timeAtSchedule c) + duration buf\<rparr>,
     [SourceStart buf (max (nextStartTime s) (timeAtSchedule c))])"
  using assms by (simp add: handleAudio_def Let_def max_def)

lemma handleAudio_cases:
  "handleAudio c m s = (s, []) \<or> (\<exists>e. handleAudio c m s = (s, [ConsoleError e]))
   \<or> (\<exists>buf. 0 < duration buf \<and> handleAudio c m s =
         (s\<lparr>nextStartTime := max (nextStartTime s) (timeAtSchedule c) + duration buf\<rparr>,
          [SourceStart buf (max (nextStartTime s) (timeAtSchedule c))]))"
  using duration_pos
  by (auto simp: handleAudio_def Let_def max_def split: option.splits sum.splits)

lemma handleAudio_cursor:
  "nextStartTime s \<le> nextStartTime (fst (handleAudio c m s))"
  "nextStartTime (fst (handleAudio c m s)) \<noteq> nextStartTime s \<Longrightarrow>
     timeAtSchedule c \<le> nextStartTime (fst (handleAudio c m s))"
  "\<forall>(b, t) \<in> set (scheduled (snd (handleAudio c m s))).
     timeAtSchedule c \<le> t \<and> nextStartTime s \<le> t"
  using handleAudio_cases [of c m s] by (auto simp: max_def)

lemma handleMessage_audio_ok:
  assumes "base64Audio m = Some b64" "b64 \<noteq> []" "decodeChunk b64 = Inr buf"
    "outputAudioContext s" "outputNode s"
  shows "scheduled (snd (handleMessage c m s))
           = [(buf, max (nextStartTime s) (timeAtSchedule c))]"
    and "nextStartTime (fst (handleAudio c m (fst (handleTurnComplete m (fst (handleTranscriptions m s))))))
           = max (nextStartTime s) (timeAtSchedule c) + duration buf"
    and "nextStartTime (fst (handleMessage c m s)) =
      (if flag interrupted m
       then timeAtInterrupt c
       else max (nextStartTime s) (timeAtSchedule c) + duration buf)"
proof -
  let ?s2 = "fst (handleTurnComplete m (fst (handleTranscriptions m s)))"
  have dev: "outputAudioContext ?s2" "outputNode ?s2" "nextStartTime ?s2 = nextStartTime s"
    using assms by (simp_all add: turnComplete_frame transcriptions_frame)
  have A: "handleAudio c m ?s2 =
    (?s2\<lparr>nextStartTime := max (nextStartTime s) (timeAtSchedule c) + duration buf\<rparr>,
     [SourceStart buf (max (nextStartTime s) (timeAtSchedule c))])"
    using handleAudio_ok [OF assms(1-3) dev(1,2), of c] dev(3) by simp
  show "scheduled (snd (handleMessage c m s))
          = [(buf, max (nextStartTime s) (timeAtSchedule c))]"
    by (simp add: handleMessage_snd scheduled_append turnComplete_frame transcriptions_frame A)
  show "nextStartTime (fst (handleAudio c m ?s2))
          = max (nextStartTime s) (timeAtSchedule c) + duration buf"
    by (simp add: A)
  show "nextStartTime (fst (handleMessage c m s)) =
      (if flag interrupted m
       then timeAtInterrupt c
       else max (nextStartTime s) (timeAtSchedule c) + duration buf)"
    using dev(1) by (simp add: handleMessage_fst A handleInterruption_def)
qed

lemma sample_chunk:
  "base64Audio (chunkMessage b64) = Some b64"
  "flag interrupted (chunkMessage b64) = False"
  "flag turnComplete (chunkMessage b64) = False"
  "content outputTranscription (chunkMessage b64) = None"
  "content inputTranscription (chunkMessage b64) = None"
  by (simp_all add: chunkMessage_def base64Audio_def content_def flag_def noContent_def)

lemma sample_decode:
  "decodeChunk ''AAE='' = Inr \<lparr>sampleRate = 24000, frames = 1, channelData = [[1 / 128]]\<rparr>"
  "decodeChunk ''AAEC'' = Inl RangeError"
  by code_simp+

text \<open>
  Claim C1. When a message carries a chunk that decodes (the output context and node
  exist, the payload is not empty), the handler starts exactly one source: the decoded
  buffer, at the maximum of the cursor before the call and the clock; the scheduling step
  then leaves the cursor at that start plus the buffer's duration, which is also the
  cursor after the handler unless the same message is an interruption. So a stale
  cursor gives a start at the clock, and a following chunk that is handled with no
  interruption in between and with a clock not past the cursor starts at the previous
  start plus the previous duration.
\<close>

theorem playback_schedule:
  assumes "base64Audio m = Some b64" "b64 \<noteq> []" "decodeChunk b64 = Inr buf"
    "outputAudioContext s" "outputNode s"
  shows "scheduled (snd (handleMessage c m s))
           = [(buf, max (nextStartTime s) (timeAtSchedule c))]
    \<and> nextStartTime (fst (handleAudio c m (fst (handleTurnComplete m (fst (handleTranscriptions m s))))))
        = max (nextStartTime s) (timeAtSchedule c) + duration buf
    \<and> (\<not> flag interrupted m \<longrightarrow>
         nextStartTime (fst (handleMessage c m s))
           = max (nextStartTime s) (timeAtSchedule c) + duration buf)
    \<and> (nextStartTime s < timeAtSchedule c \<longrightarrow>
         scheduled (snd (handleMessage c m s)) = [(buf, timeAtSchedule c)])
    \<and> (\<forall>c' m' b64' buf'.
          \<not> flag interrupted m \<and> base64Audio m' = Some b64' \<and> b64' \<noteq> []
          \<and> decodeChunk b64' = Inr buf'
          \<and> timeAtSchedule c' \<le> nextStartTime (fst (handleMessage c m s))
          \<longrightarrow> scheduled (snd (handleMessage c' m' (fst (handleMessage c m s))))
                = [(buf', max (nextStartTime s) (timeAtSchedule c) + duration buf)])"
proof -
  note first = handleMessage_audio_ok [OF assms, of c]
  have B: "nextStartTime s < timeAtSchedule c \<longrightarrow>
         scheduled (snd (handleMessage c m s)) = [(buf, timeAtSchedule c)]"
    using first(1) by (simp add: max_def)
  have C: "scheduled (snd (handleMessage c' m' (fst (handleMessage c m s))))
                = [(buf', max (nextStartTime s) (timeAtSchedule c) + duration buf)]"
    if h: "\<not> flag interrupted m" "base64Audio m' = Some b64'" "b64' \<noteq> []"
          "decodeChunk b64' = Inr buf'"
          "timeAtSchedule c' \<le> nextStartTime (fst (handleMessage c m s))"
    for c' m' b64' buf'
  proof -
    have dev': "outputAudioContext (fst (handleMessage c m s))"
      "outputNode (fst (handleMessage c m s))"
      using assms by (simp_all add: handleMessage_devices)
    have "scheduled (snd (handleMessage c' m' (fst (handleMessage c m s))))
       = [(buf', max (nextStartTime (fst (handleMessage c m s))) (timeAtSchedule c'))]"
      using handleMessage_audio_ok(1) [OF h(2-4) dev'] .
    moreover have "max (nextStartTime (fst (handleMessage c m s))) (timeAtSchedule c')
       = max (nextStartTime s) (timeAtSchedule c) + duration buf"
      using h(1,5) first(3) by (simp add: max_def)
    ultimately show ?thesis by simp
  qed
  show ?thesis using first B C by auto
qed

theorem playback_schedule_witness:
  "scheduled (snd (handleMessage clockAt5 (chunkMessage ''AAE='') connected))
     = [(\<lparr>sampleRate = 24000, frames = 1, channelData = [[1 / 128]]\<rparr>, 5)]
   \<and> nextStartTime (fst (handleMessage clockAt5 (chunkMessage ''AAE='') connected))
     = 5 + 1 / 24000
   \<and> scheduled (snd (handleMessage clockAt5 (chunkMessage ''AAE='')
        (fst (handleMessage clockAt5 (chunkMessage ''AAE='') connected))))
     = [(\<lparr>sampleRate = 24000, frames = 1, channelData = [[1 / 128]]\<rparr>, 5 + 1 / 24000)]"
proof -
  let ?m = "chunkMessage ''AAE=''"
  let ?buf = "\<lparr>sampleRate = 24000, frames = 1, channelData = [[1 / 128]]\<rparr>"
  have dev: "outputAudioContext connected" "outputNode connected"
    by (simp_all add: connected_def)
  have ne: "''AAE='' \<noteq> []" by simp
  note t = playback_schedule [OF sample_chunk(1) ne sample_decode(1) dev, of clockAt5]
  have v: "max (nextStartTime connected) (timeAtSchedule clockAt5) = 5"
    "duration ?buf = 1 / 24000" "timeAtSchedule clockAt5 = 5"
    by (simp_all add: connected_def clockAt5_def duration_def)
  have a: "scheduled (snd (handleMessage clockAt5 ?m connected)) = [(?buf, 5)]"
    using t v by simp
  have b: "nextStartTime (fst (handleMessage clockAt5 ?m connected)) = 5 + 1 / 24000"
    using t v by (simp add: sample_chunk)
  have "\<not> flag interrupted ?m \<and> base64Audio ?m = Some ''AAE='' \<and> ''AAE='' \<noteq> []
          \<and> decodeChunk ''AAE='' = Inr ?buf
          \<and> timeAtSchedule clockAt5 \<le> nextStartTime (fst (handleMessage clockAt5 ?m connected))"
    using b v by (simp add: sample_chunk sample_decode)
  then have "scheduled (snd (handleMessage clockAt5 ?m (fst (handleMessage clockAt5 ?m connected))))
                = [(?buf, max (nextStartTime connected) (timeAtSchedule clockAt5) + duration ?buf)]"
    using t by blast
  then show ?thesis using a b v by simp
qed

lemma handleMessage_monotone:
  "\<not> flag interrupted m \<Longrightarrow> nextStartTime s \<le> nextStartTime (fst (handleMessage c m s))"
  using handleAudio_cursor(1) [of "fst (handleTurnComplete m (fst (handleTranscriptions m s)))" c m]
  by (simp add: handleMessage_fst handleInterruption_def turnComplete_frame transcriptions_frame)

lemma run_monotone:
  "\<forall>(c, m) \<in> set ms. \<not> flag interrupted m \<Longrightarrow>
     nextStartTime s \<le> nextStartTime (fst (run ms s))"
proof (induction ms arbitrary: s)
  case Nil
  then show ?case by (simp add: run_Nil)
next
  case (Cons a ms)
  obtain c m where a: "a = (c, m)" by (cases a)
  have "nextStartTime s \<le> nextStartTime (fst (handleMessage c m s))"
    using handleMessage_monotone [of m s c] Cons.prems a by simp
  also have "\<dots> \<le> nextStartTime (fst (run ms (fst (handleMessage c m s))))"
    using Cons.IH Cons.prems by simp
  finally show ?case using a by (simp add: run_Cons)
qed

lemma sample_step:
  "handleMessage clockAt5 (chunkMessage ''AAE='') connected =
     (connected\<lparr>nextStartTime := 5 + 1 / 24000\<rparr>,
      [SourceStart \<lparr>sampleRate = 24000, frames = 1, channelData = [[1 / 128]]\<rparr> 5])"
  by (simp add: handleMessage_def handleTranscriptions_def handleTurnComplete_def handleAudio_def
      handleInterruption_def sample_chunk sample_decode connected_def clockAt5_def duration_def)

lemma sample_interruption:
  "flag interrupted interruption"
  "handleMessage clockAt5 interruption speaking =
     (speaking\<lparr>nextStartTime := 5, currentOutputTranscription := []\<rparr>, [])"
  by (simp_all add: handleMessage_def handleTranscriptions_def handleTurnComplete_def
      handleAudio_def handleInterruption_def interruption_def noContent_def content_def flag_def
      base64Audio_def speaking_def clockAt5_def)

text \<open>
  Claim C4. A message that is not an interruption never moves the cursor back, and so
  neither does any run of such messages; when such a message changes the cursor the new
  value is not below the clock read at scheduling, as is every start time handed to the
  output device; an interruption in a session whose output context exists sets the cursor
  to the clock read at that moment. (The handler is the only operation of the service
  that writes the cursor. With no output context there is no clock, and an interruption
  sets the cursor to 0.)
\<close>

theorem playback_cursor_invariant:
  "(\<not> flag interrupted m \<longrightarrow> nextStartTime s \<le> nextStartTime (fst (handleMessage c m s)))
   \<and> ((\<forall>(c, m) \<in> set ms. \<not> flag interrupted m) \<longrightarrow>
        nextStartTime s \<le> nextStartTime (fst (run ms s)))
   \<and> (\<not> flag interrupted m \<and> nextStartTime (fst (handleMessage c m s)) \<noteq> nextStartTime s
        \<longrightarrow> timeAtSchedule c \<le> nextStartTime (fst (handleMessage c m s)))
   \<and> (nextStartTime (fst (handleAudio c m s)) \<noteq> nextStartTime s
        \<longrightarrow> timeAtSchedule c \<le> nextStartTime (fst (handleAudio c m s)))
   \<and> (flag interrupted m \<and> outputAudioContext s
        \<longrightarrow> nextStartTime (fst (handleMessage c m s)) = timeAtInterrupt c)
   \<and> (\<forall>(b, t) \<in> set (scheduled (snd (handleMessage c m s))). timeAtSchedule c \<le> t)"
proof -
  let ?s2 = "fst (handleTurnComplete m (fst (handleTranscriptions m s)))"
  have n: "nextStartTime ?s2 = nextStartTime s" "outputAudioContext ?s2 = outputAudioContext s"
    by (simp_all add: turnComplete_frame transcriptions_frame)
  have 1: "\<not> flag interrupted m \<longrightarrow> nextStartTime s \<le> nextStartTime (fst (handleMessage c m s))"
    using handleMessage_monotone [of m s c] by simp
  have 2: "\<not> flag interrupted m \<and> nextStartTime (fst (handleMessage c m s)) \<noteq> nextStartTime s
        \<longrightarrow> timeAtSchedule c \<le> nextStartTime (fst (handleMessage c m s))"
    using handleAudio_cursor(2) [of c m ?s2] n
    by (simp add: handleMessage_fst handleInterruption_def)
  have 3: "flag interrupted m \<and> outputAudioContext s
        \<longrightarrow> nextStartTime (fst (handleMessage c m s)) = timeAtInterrupt c"
    using n by (simp add: handleMessage_fst handleInterruption_def audio_frame)
  have 4: "\<forall>(b, t) \<in> set (scheduled (snd (handleMessage c m s))). timeAtSchedule c \<le> t"
    using handleAudio_cursor(3) [of c m ?s2]
    by (auto simp: handleMessage_snd scheduled_append turnComplete_frame transcriptions_frame)
  show ?thesis
    using 1 2 3 4 run_monotone [of ms s] handleAudio_cursor(2) [of c m s] by blast
qed

theorem playback_cursor_invariant_witness:
  "nextStartTime connected
     \<le> nextStartTime (fst (handleMessage clockAt5 (chunkMessage ''AAE='') connected))
   \<and> nextStartTime connected
     \<le> nextStartTime (fst (run [(clockAt5, chunkMessage ''AAE='')] connected))
   \<and> timeAtSchedule clockAt5
     \<le> nextStartTime (fst (handleMessage clockAt5 (chunkMessage ''AAE='') connected))
   \<and> nextStartTime (fst (handleMessage clockAt5 interruption speaking)) = timeAtInterrupt clockAt5"
proof -
  let ?m = "chunkMessage ''AAE=''"
  note t = playback_cursor_invariant [of ?m connected clockAt5 "[(clockAt5, ?m)]"]
  note u = playback_cursor_invariant [of interruption speaking clockAt5 "[]"]
  have moved: "nextStartTime (fst (handleMessage clockAt5 ?m connected)) \<noteq> nextStartTime connected"
    unfolding sample_step by (simp add: connected_def)
  have ctx: "outputAudioContext speaking" by (simp add: speaking_def)
  show ?thesis
    using t u moved ctx sample_interruption(1) by (simp add: sample_chunk)
qed

subsection \<open>Routing of transcription fragments\<close>

text \<open>
  Claim C6, as stated, fails: the two routings are the branches of one
  \<open>if ... else if\<close>, so a message that carries both kinds of fragment is routed as an
  output fragment only. Here the user string stays empty and the only callback is the
  model's.
\<close>

theorem transcription_routing_counterexample:
  "content inputTranscription bothFragments = Some ''hi''
   \<and> content outputTranscription bothFragments = Some ''yo''
   \<and> currentInputTranscription (fst (handleMessage clockAt5 bothFragments connected)) = []
   \<and> callbacks (snd (handleMessage clockAt5 bothFragments connected)) = [(''yo'', Model, False)]"
  by (simp add: handleMessage_def handleTranscriptions_def handleTurnComplete_def
      handleAudio_def handleInterruption_def content_def flag_def base64Audio_def Let_def
      bothFragments_def noContent_def connected_def)

text \<open>
  Claim C6, amended. A message with an outputTranscription fragment appends the
  fragment's text to the model string and makes the callback with the accumulated text,
  role model, not final. A message with an inputTranscription fragment and no
  outputTranscription fragment does the same for the user string and role user. A
  message with neither routes nothing. These are the first callbacks of the handler, any
  later one of the same message is a final one (the flush at the end of a turn), and
  the strings after the handler are the appended ones unless the message also ends the
  turn or interrupts.
\<close>

theorem transcription_routing:
  "(content outputTranscription m = Some str \<longrightarrow>
      handleTranscriptions m s =
        (s\<lparr>currentOutputTranscription := currentOutputTranscription s @ str\<rparr>,
         [OnTranscript (currentOutputTranscription s @ str) Model False]))
   \<and> (content outputTranscription m = None \<and> content inputTranscription m = Some str \<longrightarrow>
      handleTranscriptions m s =
        (s\<lparr>currentInputTranscription := currentInputTranscription s @ str\<rparr>,
         [OnTranscript (currentInputTranscription s @ str) User False]))
   \<and> (content outputTranscription m = None \<and> content inputTranscription m = None \<longrightarrow>
      handleTranscriptions m s = (s, []))
   \<and> (\<exists>rest. callbacks (snd (handleMessage c m s))
                = callbacks (snd (handleTranscriptions m s)) @ rest
          \<and> (\<forall>(t, r, f) \<in> set rest. f))
   \<and> (\<not> flag turnComplete m \<and> \<not> flag interrupted m \<longrightarrow>
        currentInputTranscription (fst (handleMessage c m s))
          = currentInputTranscription (fst (handleTranscriptions m s))
        \<and> currentOutputTranscription (fst (handleMessage c m s))
          = currentOutputTranscription (fst (handleTranscriptions m s)))"
proof -
  have 1: "\<forall>(t, r, f) \<in> set (callbacks (snd (handleTurnComplete m s'))). f" for s'
    by (simp add: handleTurnComplete_def flushInput_def flushOutput_def split_beta)
  have 2: "callbacks (snd (handleMessage c m s)) = callbacks (snd (handleTranscriptions m s))
      @ callbacks (snd (handleTurnComplete m (fst (handleTranscriptions m s))))"
    by (simp add: handleMessage_snd callbacks_append audio_frame)
  have 3: "\<not> flag turnComplete m \<Longrightarrow> handleTurnComplete m s' = (s', [])" for s'
    by (simp add: handleTurnComplete_def)
  have 4: "\<not> flag interrupted m \<Longrightarrow> handleInterruption c m s' = s'" for s'
    by (simp add: handleInterruption_def)
  show ?thesis
    using 1 2 by (auto simp: handleTranscriptions_def Let_def handleMessage_fst 3 4 audio_frame)
qed

theorem transcription_routing_witness:
  "handleTranscriptions bothFragments connected =
     (connected\<lparr>currentOutputTranscription := ''yo''\<rparr>, [OnTranscript ''yo'' Model False])
   \<and> handleTranscriptions userFragment connected =
     (connected\<lparr>currentInputTranscription := ''hi''\<rparr>, [OnTranscript ''hi'' User False])
   \<and> currentInputTranscription (fst (handleMessage clockAt5 userFragment connected)) = ''hi''"
proof -
  have b: "content outputTranscription bothFragments = Some ''yo''"
    by (simp add: bothFragments_def content_def noContent_def)
  have u: "content outputTranscription userFragment = None"
    "content inputTranscription userFragment = Some ''hi''"
    "\<not> flag turnComplete userFragment" "\<not> flag interrupted userFragment"
    by (simp_all add: userFragment_def content_def flag_def noContent_def)
  have e: "currentOutputTranscription connected = []" "currentInputTranscription connected = []"
    by (simp_all add: connected_def)
  show ?thesis
    using transcription_routing [of bothFragments "''yo''" connected clockAt5]
      transcription_routing [of userFragment "''hi''" connected clockAt5] b u e
    by simp
qed

subsection \<open>Interruption\<close>

lemma withoutInterrupted_steps:
  "handleTranscriptions (withoutInterrupted m) = handleTranscriptions m"
  "handleTurnComplete (withoutInterrupted m) = handleTurnComplete m"
  "handleAudio c (withoutInterrupted m) = handleAudio c m"
  "handleInterruption c (withoutInterrupted m) s = s"
proof -
  have c: "content outputTranscription (withoutInterrupted m) = content outputTranscription m"
    "content inputTranscription (withoutInterrupted m) = content inputTranscription m"
    "content modelTurn (withoutInterrupted m) = content modelTurn m"
    by (simp_all add: content_def withoutInterrupted_def split: option.splits)
  show "handleTranscriptions (withoutInterrupted m) = handleTranscriptions m"
    by (rule ext) (simp add: handleTranscriptions_def c cong: option.case_cong)
  show "handleTurnComplete (withoutInterrupted m) = handleTurnComplete m"
    by (rule ext)
      (simp add: handleTurnComplete_def flag_def withoutInterrupted_def split: option.splits)
  show "handleAudio c (withoutInterrupted m) = handleAudio c m"
    by (rule ext) (simp add: handleAudio_def base64Audio_def c)
  show "handleInterruption c (withoutInterrupted m) s = s"
    by (simp add: handleInterruption_def flag_def withoutInterrupted_def split: option.splits)
qed

text \<open>
  Claim C7. A message with the interrupted flag leaves the cursor at the clock read at
  the interruption (at 0 when the service has no output context, hence no clock) and the
  model string empty. Everything else is as for the same message without the flag: the
  user string, and the effects, so no callback is made for the cleared text. A message
  that carries nothing but the flag makes no callback at all, and the transcript the UI
  shows is unchanged by it: a partial model turn stays as it was, incomplete.
\<close>

theorem interruption_reset:
  assumes "flag interrupted m"
  shows "nextStartTime (fst (handleMessage c m s))
           = (if outputAudioContext s then timeAtInterrupt c else 0)
    \<and> currentOutputTranscription (fst (handleMessage c m s)) = []
    \<and> currentInputTranscription (fst (handleMessage c m s))
        = currentInputTranscription (fst (handleMessage c (withoutInterrupted m) s))
    \<and> snd (handleMessage c m s) = snd (handleMessage c (withoutInterrupted m) s)
    \<and> fst (handleMessage c m s) = (fst (handleMessage c (withoutInterrupted m) s))
         \<lparr>nextStartTime := (if outputAudioContext s then timeAtInterrupt c else 0),
          currentOutputTranscription := []\<rparr>
    \<and> handleMessage c interruption s =
         (s\<lparr>nextStartTime := (if outputAudioContext s then timeAtInterrupt c else 0),
            currentOutputTranscription := []\<rparr>, [])
    \<and> render now (snd (handleMessage c interruption s)) ui = ui"
proof -
  have i: "handleInterruption c m s' =
      s'\<lparr>nextStartTime := (if outputAudioContext s' then timeAtInterrupt c else 0),
         currentOutputTranscription := []\<rparr>" for s'
    using assms by (simp add: handleInterruption_def)
  have p: "handleMessage c interruption s =
         (s\<lparr>nextStartTime := (if outputAudioContext s then timeAtInterrupt c else 0),
            currentOutputTranscription := []\<rparr>, [])"
    by (simp add: handleMessage_def handleTranscriptions_def handleTurnComplete_def
        handleAudio_def handleInterruption_def interruption_def noContent_def content_def
        flag_def base64Audio_def)
  have r: "render now (snd (handleMessage c interruption s)) ui = ui"
    by (simp add: p render_def)
  show ?thesis
    using p r
    by (simp add: handleMessage_fst handleMessage_snd withoutInterrupted_steps i audio_frame
        turnComplete_frame transcriptions_frame)
qed

theorem interruption_reset_witness:
  "nextStartTime (fst (handleMessage clockAt5 interruption speaking)) = 5
   \<and> currentOutputTranscription (fst (handleMessage clockAt5 interruption speaking)) = []
   \<and> currentInputTranscription (fst (handleMessage clockAt5 interruption speaking)) = ''Hi''
   \<and> snd (handleMessage clockAt5 interruption speaking) = []"
proof -
  have w: "handleMessage clockAt5 (withoutInterrupted interruption) speaking = (speaking, [])"
    by (simp add: handleMessage_def handleTranscriptions_def handleTurnComplete_def
        handleAudio_def handleInterruption_def interruption_def noContent_def content_def
        flag_def base64Audio_def withoutInterrupted_def)
  have v: "outputAudioContext speaking" "timeAtInterrupt clockAt5 = 5"
    "currentInputTranscription speaking = ''Hi''"
    by (simp_all add: speaking_def clockAt5_def)
  show ?thesis
    using interruption_reset [OF sample_interruption(1), of clockAt5 speaking 0 "[]"] v
    by (simp add: w)
qed

subsection \<open>Decode failure\<close>

lemma withoutAudio_steps:
  "handleTranscriptions (withoutAudio m) = handleTranscriptions m"
  "handleTurnComplete (withoutAudio m) = handleTurnComplete m"
  "handleInterruption c (withoutAudio m) = handleInterruption c m"
  "handleAudio c (withoutAudio m) s = (s, [])"
proof -
  have c: "content outputTranscription (withoutAudio m) = content outputTranscription m"
    "content inputTranscription (withoutAudio m) = content inputTranscription m"
    by (simp_all add: content_def withoutAudio_def split: option.splits)
  show "handleTranscriptions (withoutAudio m) = handleTranscriptions m"
    by (rule ext) (simp add: handleTranscriptions_def c cong: option.case_cong)
  show "handleTurnComplete (withoutAudio m) = handleTurnComplete m"
    by (rule ext) (simp add: handleTurnComplete_def flag_def withoutAudio_def split: option.splits)
  show "handleInterruption c (withoutAudio m) = handleInterruption c m"
    by (rule ext) (simp add: handleInterruption_def flag_def withoutAudio_def split: option.splits)
  show "handleAudio c (withoutAudio m) s = (s, [])"
    by (simp add: handleAudio_def base64Audio_def content_def withoutAudio_def
        split: option.splits)
qed

lemma decode_failure_step:
  assumes "base64Audio m = Some b64" "decodeChunk b64 = Inl err"
  shows "handleAudio c m s = (s, []) \<or> handleAudio c m s = (s, [ConsoleError err])"
    and "fst (handleMessage c m s) = fst (handleMessage c (withoutAudio m) s)"
    and "scheduled (snd (handleMessage c m s)) = []"
    and "scheduled (snd (handleMessage c (withoutAudio m) s)) = []"
    and "[e \<leftarrow> snd (handleMessage c m s). e \<noteq> ConsoleError err]
           = snd (handleMessage c (withoutAudio m) s)"
    and "callbacks (snd (handleMessage c m s))
           = callbacks (snd (handleMessage c (withoutAudio m) s))"
proof -
  have a1: "handleAudio c m s' = (s', []) \<or> handleAudio c m s' = (s', [ConsoleError err])" for s'
    using assms by (simp add: handleAudio_def)
  have nolog:
    "[e \<leftarrow> snd (handleTranscriptions m s'). e \<noteq> ConsoleError err] = snd (handleTranscriptions m s')"
    "[e \<leftarrow> snd (handleTurnComplete m s'). e \<noteq> ConsoleError err] = snd (handleTurnComplete m s')"
    for s'
    by (simp_all add: handleTranscriptions_def handleTurnComplete_def flushInput_def
        flushOutput_def Let_def split_beta split: option.splits)
  note a2 = a1 [of "fst (handleTurnComplete m (fst (handleTranscriptions m s)))"]
  show "handleAudio c m s = (s, []) \<or> handleAudio c m s = (s, [ConsoleError err])"
    by (rule a1)
  show "fst (handleMessage c m s) = fst (handleMessage c (withoutAudio m) s)"
    using a2 by (auto simp: handleMessage_fst withoutAudio_steps)
  show "scheduled (snd (handleMessage c m s)) = []"
    using a2
    by (auto simp: handleMessage_snd scheduled_append turnComplete_frame transcriptions_frame)
  show "scheduled (snd (handleMessage c (withoutAudio m) s)) = []"
    by (simp add: handleMessage_snd withoutAudio_steps scheduled_append turnComplete_frame
        transcriptions_frame)
  show "[e \<leftarrow> snd (handleMessage c m s). e \<noteq> ConsoleError err]
           = snd (handleMessage c (withoutAudio m) s)"
    using a2 by (auto simp: handleMessage_snd withoutAudio_steps nolog)
  show "callbacks (snd (handleMessage c m s))
           = callbacks (snd (handleMessage c (withoutAudio m) s))"
    by (simp add: handleMessage_snd withoutAudio_steps callbacks_append audio_frame)
qed

text \<open>
  Claim C8. When the chunk of a message fails to decode, the scheduling step changes
  nothing in the service and starts no source (it only logs the error): the handler
  leaves the service in the state the same message without its audio part would leave
  it in, so the cursor and both strings are untouched by the failure, and its effects
  are those of that message plus the log entry. Hence in any session the final state,
  the sources started with their start times, and the callbacks are what they would be
  had the failed chunk not been in its message.
\<close>

theorem decode_failure_dropped:
  assumes "base64Audio m = Some b64" "decodeChunk b64 = Inl err"
  shows "(handleAudio c m s = (s, []) \<or> handleAudio c m s = (s, [ConsoleError err]))
    \<and> fst (handleMessage c m s) = fst (handleMessage c (withoutAudio m) s)
    \<and> scheduled (snd (handleMessage c m s)) = []
    \<and> [e \<leftarrow> snd (handleMessage c m s). e \<noteq> ConsoleError err]
        = snd (handleMessage c (withoutAudio m) s)
    \<and> fst (run (pre @ (c, m) # post) s) = fst (run (pre @ (c, withoutAudio m) # post) s)
    \<and> scheduled (snd (run (pre @ (c, m) # post) s))
        = scheduled (snd (run (pre @ (c, withoutAudio m) # post) s))
    \<and> callbacks (snd (run (pre @ (c, m) # post) s))
        = callbacks (snd (run (pre @ (c, withoutAudio m) # post) s))"
  using decode_failure_step [OF assms, of c s] decode_failure_step [OF assms, of c "fst (run pre s)"]
  by (simp add: run_fst_append run_snd_append run_Cons scheduled_append callbacks_append)

theorem decode_failure_dropped_witness:
  "handleAudio clockAt5 (chunkMessage ''AAEC'') speaking = (speaking, [ConsoleError RangeError])
   \<and> fst (handleMessage clockAt5 (chunkMessage ''AAEC'') speaking) = speaking
   \<and> scheduled (snd (run [(clockAt5, chunkMessage ''AAEC''), (clockAt5, chunkMessage ''AAE='')] connected))
      = [(\<lparr>sampleRate = 24000, frames = 1, channelData = [[1 / 128]]\<rparr>, 5)]"
proof -
  let ?bad = "chunkMessage ''AAEC''"
  let ?good = "chunkMessage ''AAE=''"
  note t = decode_failure_dropped [OF sample_chunk(1) sample_decode(2), of clockAt5 _ "[]"]
  have w: "handleMessage clockAt5 (withoutAudio ?bad) s = (s, [])" for s
    by (simp add: handleMessage_def handleTranscriptions_def handleTurnComplete_def
        handleAudio_def handleInterruption_def chunkMessage_def noContent_def content_def
        flag_def base64Audio_def withoutAudio_def)
  have a: "handleAudio clockAt5 ?bad speaking = (speaking, [ConsoleError RangeError])"
    by (simp add: handleAudio_def sample_chunk sample_decode speaking_def)
  have b: "fst (handleMessage clockAt5 ?bad speaking) = speaking"
    using t [of speaking "[]"] by (simp add: w)
  have "scheduled (snd (run ([] @ (clockAt5, ?bad) # [(clockAt5, ?good)]) connected))
      = scheduled (snd (run ([] @ (clockAt5, withoutAudio ?bad) # [(clockAt5, ?good)]) connected))"
    using t [of connected "[(clockAt5, ?good)]"] by blast
  then have c: "scheduled (snd (run [(clockAt5, ?bad), (clockAt5, ?good)] connected))
      = [(\<lparr>sampleRate = 24000, frames = 1, channelData = [[1 / 128]]\<rparr>, 5)]"
    by (simp add: run_Cons run_Nil w sample_step)
  show ?thesis using a b c by simp
qed

end

